theory Spec2Isabelle
  imports Complex_Main "HOL-Library.AList" "HOL-Library.Sublist"
    "HOL-Library.List_Lexorder" "HOL-Library.Char_ord"
begin

unbundle bit_operations_syntax

section \<open>Values shared by the whole program\<close>

text \<open>
  Python integers are unbounded, so widths, offsets, pointer coordinates, key codes and
  modifier masks are \<open>int\<close>; \<open>&\<close> is \<open>AND\<close> on \<open>int\<close> and a masked value is true when
  it is not \<open>0\<close>. Exceptions are values of \<open>error\<close>; a function that can raise returns
  \<open>error + 'a\<close>, with \<open>Inl\<close> for the exception.
\<close>

datatype error = StructError | UnicodeDecodeError | AttributeError | IndexError
  | Never_returns \<comment> \<open>not an exception: a blocking wait whose answer never arrives\<close>

definition bind_e :: "error + 'a \<Rightarrow> ('a \<Rightarrow> error + 'b) \<Rightarrow> error + 'b" where
  "bind_e r f = (case r of Inl e \<Rightarrow> Inl e | Inr x \<Rightarrow> f x)"

text \<open>
  The numeric constants of the \<open>yutani\<close> module (mouse commands, button and modifier
  masks, key codes, key actions) are declared outside the file verified here. Every
  function that compares against one of them takes the table \<open>Y\<close> as a parameter. The
  mouse command \<open>5\<close> ("leave") and the key code \<open>0\<close> are literals of the source.
\<close>

record yutani =
  CLICK :: int
  SCROLL_UP :: int
  SCROLL_DOWN :: int
  MOD_LEFT_CTRL :: int
  MOD_LEFT_SHIFT :: int
  MOD_LEFT_ALT :: int
  F1 :: int
  F2 :: int
  F11 :: int
  ESCAPE :: int
  DEL :: int
  LEFT_ALT :: int
  ACTION_DOWN :: int
  ACTION_UP :: int

text \<open>A sample table of distinct values, used to evaluate the functions at concrete inputs.\<close>

definition sample_yutani :: yutani where
  "sample_yutani =
     \<lparr>CLICK = 0, SCROLL_UP = 0x10, SCROLL_DOWN = 0x20,
      MOD_LEFT_CTRL = 0x01, MOD_LEFT_SHIFT = 0x02, MOD_LEFT_ALT = 0x04,
      F1 = 2001, F2 = 2002, F11 = 2011, ESCAPE = 27, DEL = 2025, LEFT_ALT = 1003,
      ACTION_DOWN = 1, ACTION_UP = 2\<rparr>"

text \<open>
  Messages, windows and advertisements all carry a window id \<open>wid\<close>. A mouse message
  has a command, a button mask and the pointer position; a key message has the modifier
  mask, the key code, the action and the key as one byte.
\<close>

record yutani_object =
  wid :: int

record mouse_msg = yutani_object +
  command :: int
  buttons :: int
  new_x :: int
  new_y :: int

record key_msg = yutani_object +
  modifiers :: int
  keycode :: int
  action :: int
  key :: char

record window_advertise = yutani_object +
  ad_size :: int
  flags :: int
  name :: string
  icon :: string

section \<open>Panel widgets and the layout walk\<close>

text \<open>
  A panel widget declares a \<open>width\<close>; the value \<open>-1\<close> (the width of the window-list
  widget) means "fill the remaining space". \<open>hilighted\<close> is the widget's own focus
  indication, set by \<open>focus_enter\<close> and reset by \<open>focus_leave\<close> (the field of that
  name in \<open>LogOutWidget\<close> and \<open>WallpaperIcon\<close>, the font colour of the clock and of the
  applications menu).
\<close>

record widget =
  width :: int
  hilighted :: bool

definition focus_enter :: "'a widget_scheme \<Rightarrow> 'a widget_scheme" where
  "focus_enter w = w\<lparr>hilighted := True\<rparr>"

definition focus_leave :: "'a widget_scheme \<Rightarrow> 'a widget_scheme" where
  "focus_leave w = w\<lparr>hilighted := False\<rparr>"

text \<open>
  The loop of \<open>PanelWindow.draw\<close>: for every widget, in order, \<open>remaining\<close> is \<open>0\<close> for
  a fixed widget and the surface width minus the widths of all later widgets for the
  flexible one; the widget is drawn with \<open>(offset, remaining)\<close>; the offset then
  advances by the width, or jumps to \<open>remaining\<close>. \<open>draw_walk\<close> returns the arguments
  of the successive \<open>widget.draw\<close> calls. The slice \<open>self.widgets[index:]\<close> is the rest
  of the list after the current widget.
\<close>

fun draw_walk :: "int \<Rightarrow> int \<Rightarrow> 'a widget_scheme list \<Rightarrow> (int \<times> int) list" where
  "draw_walk W offset [] = []"
| "draw_walk W offset (w # ws) =
     (let remaining = (if width w \<noteq> -1 then 0 else W - sum_list (map width ws))
      in (offset, remaining)
           # draw_walk W (if width w \<noteq> -1 then offset + width w else remaining) ws)"

text \<open>
  The extent of a widget is the half-open interval tested by \<open>PanelWindow.mouse_action\<close>:
  from \<open>offset\<close> to \<open>offset + width\<close>, or to \<open>remaining\<close> for the flexible widget. The
  right edge is the offset of the next widget in both loops.
\<close>

fun extents :: "int \<Rightarrow> int \<Rightarrow> 'a widget_scheme list \<Rightarrow> (int \<times> int) list" where
  "extents W offset [] = []"
| "extents W offset (w # ws) =
     (let remaining = (if width w \<noteq> -1 then 0 else W - sum_list (map width ws))
      in (offset, (if width w \<noteq> -1 then offset + width w else remaining))
           # extents W (if width w \<noteq> -1 then offset + width w else remaining) ws)"

text \<open>
  The search loop of \<open>PanelWindow.mouse_action\<close>: the first widget with
  \<open>offset \<le> new_x < right edge\<close> wins (\<open>break\<close>); a widget is identified by its position
  in the widget list.
\<close>

fun widget_under_mouse :: "int \<Rightarrow> int \<Rightarrow> int \<Rightarrow> nat \<Rightarrow> 'a widget_scheme list \<Rightarrow> nat option" where
  "widget_under_mouse W x offset i [] = None"
| "widget_under_mouse W x offset i (w # ws) =
     (let remaining = (if width w \<noteq> -1 then 0 else W - sum_list (map width ws))
      in if x \<ge> offset \<and> x < (if width w \<noteq> -1 then offset + width w else remaining)
         then Some i
         else widget_under_mouse W x
                (if width w \<noteq> -1 then offset + width w else remaining) (Suc i) ws)"

subsection \<open>Vocabulary for extents\<close>

definition flexible :: "'a widget_scheme \<Rightarrow> bool" where
  "flexible w \<longleftrightarrow> width w = -1"

definition extent_set :: "int \<times> int \<Rightarrow> int set" where
  "extent_set e = {fst e ..< snd e}"

fun contiguous_from :: "int \<Rightarrow> (int \<times> int) list \<Rightarrow> bool" where
  "contiguous_from a [] = True"
| "contiguous_from a (e # es) = (fst e = a \<and> contiguous_from (snd e) es)"

fun chain_end :: "int \<Rightarrow> (int \<times> int) list \<Rightarrow> int" where
  "chain_end a [] = a"
| "chain_end a (e # es) = chain_end (snd e) es"

definition non_overlapping :: "(int \<times> int) list \<Rightarrow> bool" where
  "non_overlapping es \<longleftrightarrow>
     (\<forall>i < length es. \<forall>j < length es. i \<noteq> j \<longrightarrow> extent_set (es ! i) \<inter> extent_set (es ! j) = {})"

definition covers :: "(int \<times> int) list \<Rightarrow> int set \<Rightarrow> bool" where
  "covers es S \<longleftrightarrow> (\<Union>e \<in> set es. extent_set e) = S"

definition fixed_total :: "'a widget_scheme list \<Rightarrow> int" where
  "fixed_total ws = sum_list (map width (filter (\<lambda>w. \<not> flexible w) ws))"

text \<open>
  The widget list built in the main block: applications menu (140), window list
  (flexible), volume (28), date (70), clock (80), log-out button (28).
\<close>

definition toaru_widgets :: "widget list" where
  "toaru_widgets =
     [\<lparr>width = 140, hilighted = False\<rparr>, \<lparr>width = -1, hilighted = False\<rparr>,
      \<lparr>width = 28, hilighted = False\<rparr>, \<lparr>width = 70, hilighted = False\<rparr>,
      \<lparr>width = 80, hilighted = False\<rparr>, \<lparr>width = 28, hilighted = False\<rparr>]"

section \<open>The volume widget\<close>

text \<open>
  \<open>volume\<close>, \<open>muted\<close> and \<open>previous_volume\<close> are the widget's fields; \<open>mixer\<close> is the
  level last written to the mixer device. \<open>set_volume\<close> packs the level as an unsigned
  32-bit field (\<open>struct.pack("III", ...)\<close>), which raises for a value outside
  \<open>0 .. 2^32 - 1\<close>.
\<close>

record volume_widget =
  volume :: int
  muted :: bool
  previous_volume :: int
  mixer :: int

definition set_volume :: "volume_widget \<Rightarrow> error + volume_widget" where
  "set_volume s =
     (if 0 \<le> volume s \<and> volume s < 2 ^ 32 then Inr (s\<lparr>mixer := volume s\<rparr>)
      else Inl StructError)"

definition volume_up :: "volume_widget \<Rightarrow> error + volume_widget" where
  "volume_up s =
     set_volume (if volume s > 0xE0000000 then s\<lparr>volume := 0xF0000000\<rparr>
                 else s\<lparr>volume := volume s + 0x10000000\<rparr>)"

definition volume_down :: "volume_widget \<Rightarrow> error + volume_widget" where
  "volume_down s =
     set_volume (if volume s < 0x20000000 then s\<lparr>volume := 0x0\<rparr>
                 else s\<lparr>volume := volume s - 0x10000000\<rparr>)"

text \<open>
  \<open>VolumeWidget.mouse_action\<close> returns \<open>True\<close> when it handled the message and falls
  off the end (\<open>None\<close>, false) otherwise.
\<close>

definition VolumeWidget_mouse_action ::
  "yutani \<Rightarrow> 'a mouse_msg_scheme \<Rightarrow> volume_widget \<Rightarrow> error + (bool \<times> volume_widget)" where
  "VolumeWidget_mouse_action Y msg s =
     (if command msg = CLICK Y then
        (if muted s then
           map_sum id (Pair True) (set_volume (s\<lparr>muted := False, volume := previous_volume s\<rparr>))
         else
           map_sum id (Pair True)
             (set_volume (s\<lparr>muted := True, previous_volume := volume s, volume := 0\<rparr>)))
      else if buttons msg AND SCROLL_UP Y \<noteq> 0 then map_sum id (Pair True) (volume_up s)
      else if buttons msg AND SCROLL_DOWN Y \<noteq> 0 then map_sum id (Pair True) (volume_down s)
      else Inr (False, s))"

section \<open>Calls into collaborators\<close>

text \<open>
  Painting, the display server, the menu module and process creation are collaborators
  of the program. A call into one of them is recorded as an \<open>effect\<close>; the handlers
  return the effects in the order of the calls. \<open>Focus_enter\<close> and \<open>Focus_leave\<close> are
  the calls of a widget's or icon's \<open>focus_enter()\<close> and \<open>focus_leave()\<close>,
  \<open>Mouse_action\<close> the call of its \<open>mouse_action(msg)\<close>; the number is the position of
  the widget or icon in its list. \<open>Panel_draw\<close> carries the \<open>(offset, remaining)\<close> pairs
  passed to the widgets.
\<close>

datatype surface = Panel | Wallpaper

datatype effect =
    Focus_leave surface nat
  | Focus_enter surface nat
  | Mouse_action surface nat
  | Panel_draw "(int \<times> int) list"
  | Panel_move int int
  | Panel_resize int int
  | Panel_resize_accept int int
  | Panel_resize_done
  | Panel_close
  | Wallpaper_draw
  | Wallpaper_resize int int
  | Wallpaper_resize_accept int int
  | Wallpaper_resize_done
  | Wallpaper_close
  | Spawn_icon nat
  | Runner_create
  | Runner_draw string string
  | Runner_close
  | Launch_app string bool
  | Menu_activate
  | Menu_keyboard_event int
  | Menu_mouse_action int
  | Menu_leave int
  | Alttab_create
  | Alttab_draw int
  | Alttab_close
  | Focus_window int
  | Query_windows
  | Waitpid

text \<open>
  What the surroundings answer while one message is handled: the clock (\<open>time.time()\<close>;
  handling one message is taken as instantaneous, so every reading during it is \<open>now\<close>),
  the window ids the server gives to an application runner and to an alt-tab overlay
  created meanwhile, the advertisements the server sends in answer to \<open>query_windows\<close>,
  the names found in the directories of \<open>PATH\<close>, the value a panel widget's
  \<open>mouse_action\<close> returns, and the contents of \<open>panel.menus\<close> (window id and geometry of
  every open menu), a dictionary that only the menu module writes.
\<close>

record yutani_window = yutani_object +
  win_width :: int
  win_height :: int

record env =
  now :: real
  runner_wid :: int
  alttab_wid :: int
  adverts :: "window_advertise list"
  path_bins :: "string list"
  widget_result :: bool
  menus :: "(int \<times> yutani_window) list"

section \<open>The application runner\<close>

text \<open>
  \<open>data\<close> is the typed buffer, \<open>complete\<close> the suggested suffix, \<open>bins\<close> the executable
  names. Names are compared as Python compares strings, character by character by code,
  a proper prefix first: the order of \<open>List_Lexorder\<close> over \<open>Char_ord\<close>. A character
  is a \<open>char\<close>, which covers the codes below 256; a typed key is a single byte.
\<close>

record runner = yutani_object +
  data :: string
  complete :: string
  completed :: bool
  bins :: "string list"

definition ApplicationRunnerWindow :: "int \<Rightarrow> string list \<Rightarrow> runner" where
  "ApplicationRunnerWindow w bs =
     \<lparr>wid = w, data = [], complete = [], completed = False, bins = bs\<rparr>"

definition try_complete :: "runner \<Rightarrow> runner" where
  "try_complete r =
     (if data r = [] then r\<lparr>complete := [], completed := False\<rparr>
      else case find (\<lambda>b. prefix (data r) b) (sort (bins r)) of
             Some b \<Rightarrow> r\<lparr>complete := drop (length (data r)) b, completed := True\<rparr>
           | None \<Rightarrow> r\<lparr>completed := False, complete := []\<rparr>)"

text \<open>
  \<open>key_action\<close> returns the new value of the global \<open>app_runner\<close> (\<open>None\<close> once the
  overlay has closed itself) and its effects. The key is one byte; it is decoded as
  UTF-8, which raises for a byte of \<open>0x80\<close> and above.
\<close>

definition key_action ::
  "yutani \<Rightarrow> 'a key_msg_scheme \<Rightarrow> runner \<Rightarrow> error + (runner option \<times> effect list)" where
  "key_action Y msg r =
     (if \<not> action msg = ACTION_DOWN Y then Inr (Some r, [])
      else if keycode msg = ESCAPE Y then Inr (None, [Runner_close])
      else if keycode msg = DEL Y then
        Inr (Some (r\<lparr>complete := [], completed := False\<rparr>), [Runner_draw (data r) []])
      else if key msg = CHR 0x00 then Inr (Some r, [])
      else if key msg = CHR 0x0A then
        Inr (None,
          (if data r \<noteq> []
           then [Launch_app (data r @ complete r) (modifiers msg AND MOD_LEFT_SHIFT Y \<noteq> 0)]
           else []) @ [Runner_close])
      else if key msg = CHR 0x08 then
        (let r' = (if data r \<noteq> [] then try_complete (r\<lparr>data := butlast (data r)\<rparr>) else r)
         in Inr (Some r', [Runner_draw (data r') (complete r')]))
      else if \<not> of_char (key msg) < (128 :: nat) then Inl UnicodeDecodeError
      else
        (let r' = try_complete (r\<lparr>data := data r @ [key msg]\<rparr>)
         in Inr (Some r', [Runner_draw (data r') (complete r')])))"

text \<open>Feeding a sequence of key messages to an open overlay; \<open>None\<close> once it has closed.\<close>

fun run_keys :: "yutani \<Rightarrow> runner \<Rightarrow> key_msg list \<Rightarrow> error + runner option" where
  "run_keys Y r [] = Inr (Some r)"
| "run_keys Y r (m # ms) =
     (case key_action Y m r of
        Inl e \<Rightarrow> Inl e
      | Inr (None, es) \<Rightarrow> Inr None
      | Inr (Some r', es) \<Rightarrow> run_keys Y r' ms)"

text \<open>
  The completion as the specification words it: the part after the typed buffer of the
  lexicographically first name that has the buffer as a prefix; empty and not completed
  when the buffer is empty or no name has it as a prefix.
\<close>

definition completion_spec :: "string list \<Rightarrow> string \<Rightarrow> string \<times> bool" where
  "completion_spec names typed =
     (if typed = [] \<or> \<not> (\<exists>b \<in> set names. prefix typed b) then ([], False)
      else (drop (length typed) (Min {b \<in> set names. prefix typed b}), True))"

text \<open>
  An empty buffer never carries a suggestion. The overlay starts that way and every key
  keeps it so, which is what makes a backspace on an empty buffer (where \<open>try_complete\<close>
  is not called) leave a correct completion behind.
\<close>

definition runner_inv :: "runner \<Rightarrow> bool" where
  "runner_inv r \<longleftrightarrow> (data r = [] \<longrightarrow> complete r = [] \<and> \<not> completed r)"

definition key_down :: "char \<Rightarrow> key_msg" where
  "key_down c = \<lparr>wid = 7, modifiers = 0, keycode = of_char c, action = 1, key = c\<rparr>"

section \<open>The panel surface\<close>

text \<open>
  \<open>focused_widget\<close> is the position of the focused widget in \<open>widgets\<close>, or \<open>None\<close>;
  \<open>hovered_menu\<close> is the window id of the hovered menu.
\<close>

record panel_window = yutani_window +
  widgets :: "widget list"
  focused_widget :: "nat option"
  hovered_menu :: "int option"
  visible :: bool

definition PANEL_HEIGHT :: int where
  "PANEL_HEIGHT = 28"

definition PanelWindow_draw :: "panel_window \<Rightarrow> effect" where
  "PanelWindow_draw p = Panel_draw (draw_walk (win_width p) 0 (widgets p))"

text \<open>
  \<open>toggle_visibility\<close> slides the panel by one pixel per frame:
  \<open>range(PANEL_HEIGHT-1,-1,-1)\<close> when it becomes visible, \<open>range(1,PANEL_HEIGHT,1)\<close>
  when it hides. The pauses between the frames are not modelled.
\<close>

definition toggle_visibility :: "panel_window \<Rightarrow> panel_window \<times> effect list" where
  "toggle_visibility p =
     (if \<not> visible p
      then (p\<lparr>visible := True\<rparr>,
            map (\<lambda>i. Panel_move 0 (- int i)) (rev [0 ..< nat PANEL_HEIGHT]))
      else (p\<lparr>visible := False\<rparr>,
            map (\<lambda>i. Panel_move 0 (- int i)) [1 ..< nat PANEL_HEIGHT]))"

text \<open>
  \<open>PanelWindow.mouse_action\<close>. A widget object is always true in Python, so
  \<open>if self.focused_widget\<close> asks whether a widget is focused. \<open>r\<close> is what the focused
  widget's own \<open>mouse_action\<close> returns when the message is forwarded to it.
\<close>

definition PanelWindow_mouse_action ::
  "bool \<Rightarrow> 'a mouse_msg_scheme \<Rightarrow> panel_window \<Rightarrow> panel_window \<times> effect list" where
  "PanelWindow_mouse_action r msg p =
     (if (command msg = 5 \<or> new_y msg \<ge> win_height p) \<and> focused_widget p \<noteq> None then
        (case focused_widget p of
           None \<Rightarrow> (p, [])
         | Some i \<Rightarrow>
             (let p' = p\<lparr>widgets := (widgets p)[i := focus_leave (widgets p ! i)],
                         focused_widget := None\<rparr>
              in (p', [Focus_leave Panel i, PanelWindow_draw p'])))
      else if new_y msg < win_height p then
        (let under = widget_under_mouse (win_width p) (new_x msg) 0 0 (widgets p) in
         if under \<noteq> focused_widget p then
           (let ws1 = (case focused_widget p of
                         None \<Rightarrow> widgets p
                       | Some i \<Rightarrow> (widgets p)[i := focus_leave (widgets p ! i)]);
                e1 = (case focused_widget p of None \<Rightarrow> [] | Some i \<Rightarrow> [Focus_leave Panel i]);
                ws2 = (case under of
                         None \<Rightarrow> ws1
                       | Some j \<Rightarrow> ws1[j := focus_enter (ws1 ! j)]);
                e2 = (case under of None \<Rightarrow> [] | Some j \<Rightarrow> [Focus_enter Panel j]);
                p' = p\<lparr>widgets := ws2, focused_widget := under\<rparr>
            in (p', e1 @ e2 @ (if e1 @ e2 \<noteq> [] then [PanelWindow_draw p'] else [])))
         else
           (case under of
              None \<Rightarrow> (p, [])
            | Some j \<Rightarrow> (p, Mouse_action Panel j # (if r then [PanelWindow_draw p] else []))))
      else (p, []))"

definition PanelWindow_finish_resize :: "int \<Rightarrow> int \<Rightarrow> panel_window \<Rightarrow> panel_window \<times> effect list" where
  "PanelWindow_finish_resize w h p =
     (let p' = p\<lparr>win_width := w, win_height := h\<rparr>
      in (p', [Panel_resize_accept w h, PanelWindow_draw p', Panel_resize_done]))"

section \<open>The wallpaper surface\<close>

text \<open>
  A desktop icon has a width, a height and its \<open>hilighted\<close> flag. The animations are a
  dictionary from the animated object, the surface itself or an icon, to the start time;
  it is kept as an association list in insertion order. Images are identified by a
  number. \<open>new_background\<close> does not exist before the first \<open>animate_new\<close>.
\<close>

record wallpaper_icon = widget +
  height :: int

datatype anim_key = Self | Icon nat

record wallpaper_window = yutani_window +
  background :: nat
  new_background :: "nat option"
  icons :: "wallpaper_icon list"
  focused_icon :: "nat option"
  animations :: "(anim_key \<times> real) list"


definition add_animation :: "real \<Rightarrow> nat \<Rightarrow> wallpaper_window \<Rightarrow> wallpaper_window" where
  "add_animation t i w = w\<lparr>animations := AList.update (Icon i) t (animations w)\<rparr>"

text \<open>
  \<open>WallpaperWindow.draw\<close>, as far as it changes the state: when the surface itself is
  animated and at least one second has passed since the start, the pending background
  becomes the background and the entry is deleted at the end of the draw. The clip
  list only restricts what is painted.
\<close>

definition WallpaperWindow_draw :: "real \<Rightarrow> wallpaper_window \<Rightarrow> error + wallpaper_window" where
  "WallpaperWindow_draw t w =
     (case map_of (animations w) Self of
        None \<Rightarrow> Inr w
      | Some T \<Rightarrow>
          (case new_background w of
             None \<Rightarrow> Inl AttributeError
           | Some nb \<Rightarrow>
               (let diff = t - T in
                if diff \<ge> 1.0
                then Inr (w\<lparr>background := nb, animations := AList.delete Self (animations w)\<rparr>)
                else Inr w)))"

text \<open>
  \<open>WallpaperWindow.animate\<close>: draw, then drop every icon animation older than half a
  second; the entry of the surface itself is skipped here.
\<close>

definition animate :: "real \<Rightarrow> wallpaper_window \<Rightarrow> error + wallpaper_window" where
  "animate t w =
     bind_e (WallpaperWindow_draw t w)
       (\<lambda>w1. Inr (w1\<lparr>animations :=
                       filter (\<lambda>(k, T). k = Self \<or> \<not> t - T > 0.5) (animations w1)\<rparr>))"

text \<open>
  The icon search of \<open>WallpaperWindow.mouse_action\<close>: icons fill a column from
  \<open>y = 50\<close>; an icon that would pass the bottom starts a new column, moved right by the
  widest icon of the column before.
\<close>

fun icon_under_mouse ::
  "int \<Rightarrow> int \<Rightarrow> int \<Rightarrow> int \<Rightarrow> int \<Rightarrow> int \<Rightarrow> nat \<Rightarrow> wallpaper_icon list \<Rightarrow> nat option" where
  "icon_under_mouse H x y offset_x offset_y last_width i [] = None"
| "icon_under_mouse H x y offset_x offset_y last_width i (ic # rest) =
     (let wrap = offset_y > H - height ic;
          oy = (if wrap then 50 else offset_y);
          ox = (if wrap then offset_x + last_width else offset_x);
          lw0 = (if wrap then 0 else last_width);
          lw = (if width ic > lw0 then width ic else lw0)
      in if x \<ge> ox \<and> x < ox + width ic \<and> y \<ge> oy \<and> y < oy + height ic
         then Some i
         else icon_under_mouse H x y ox (oy + height ic) lw (Suc i) rest)"

text \<open>
  \<open>WallpaperWindow.mouse_action\<close>. A click on the focused icon runs its action, which
  starts the icon's animation and spawns the command; \<open>WallpaperIcon.mouse_action\<close>
  returns nothing, so no draw follows it.
\<close>

definition WallpaperWindow_mouse_action ::
  "yutani \<Rightarrow> real \<Rightarrow> 'a mouse_msg_scheme \<Rightarrow> wallpaper_window
     \<Rightarrow> error + (wallpaper_window \<times> effect list)" where
  "WallpaperWindow_mouse_action Y t msg w =
     (if (command msg = 5 \<or> new_y msg \<ge> win_height w) \<and> focused_icon w \<noteq> None then
        (case focused_icon w of
           None \<Rightarrow> Inr (w, [])
         | Some i \<Rightarrow>
             bind_e (WallpaperWindow_draw t
                       (w\<lparr>icons := (icons w)[i := focus_leave (icons w ! i)],
                          focused_icon := None\<rparr>))
               (\<lambda>w'. Inr (w', [Focus_leave Wallpaper i, Wallpaper_draw])))
      else
        (let under = icon_under_mouse (win_height w) (new_x msg) (new_y msg) 20 50 0 0 (icons w) in
         if under \<noteq> focused_icon w then
           (let is1 = (case focused_icon w of
                         None \<Rightarrow> icons w
                       | Some i \<Rightarrow> (icons w)[i := focus_leave (icons w ! i)]);
                e1 = (case focused_icon w of None \<Rightarrow> [] | Some i \<Rightarrow> [Focus_leave Wallpaper i]);
                is2 = (case under of
                         None \<Rightarrow> is1
                       | Some j \<Rightarrow> is1[j := focus_enter (is1 ! j)]);
                e2 = (case under of None \<Rightarrow> [] | Some j \<Rightarrow> [Focus_enter Wallpaper j]);
                w' = w\<lparr>icons := is2, focused_icon := under\<rparr>
            in if e1 @ e2 \<noteq> []
               then bind_e (WallpaperWindow_draw t w') (\<lambda>w''. Inr (w'', e1 @ e2 @ [Wallpaper_draw]))
               else Inr (w', []))
         else
           (case under of
              None \<Rightarrow> Inr (w, [])
            | Some j \<Rightarrow>
                (if command msg = CLICK Y
                 then Inr (add_animation t j w, [Mouse_action Wallpaper j, Spawn_icon j])
                 else Inr (w, [Mouse_action Wallpaper j])))))"

definition WallpaperWindow_finish_resize ::
  "real \<Rightarrow> int \<Rightarrow> int \<Rightarrow> wallpaper_window \<Rightarrow> error + (wallpaper_window \<times> effect list)" where
  "WallpaperWindow_finish_resize t w h wp =
     bind_e (WallpaperWindow_draw t (wp\<lparr>win_width := w, win_height := h\<rparr>))
       (\<lambda>wp'. Inr (wp', [Wallpaper_resize_accept w h, Wallpaper_draw, Wallpaper_resize_done]))"

section \<open>The session: global state of the main block\<close>

text \<open>
  The module-level variables of the main block, and the log \<open>trace\<close> of the calls made
  into collaborators so far. \<open>alttab\<close> holds the window id of the alt-tab overlay once
  one was created; \<open>exited\<close> records that the loop was left.
\<close>

record session =
  panel :: panel_window
  wallpaper :: wallpaper_window
  app_runner :: "runner option"
  tabbing :: bool
  alttab :: "int option"
  new_focused :: int
  windows_zorder :: "window_advertise list"
  windows :: "window_advertise list"
  current_time :: int
  exited :: bool
  trace :: "effect list"

text \<open>Python list indexing: a negative index counts from the end, anything else out of range raises.\<close>

definition py_index :: "'a list \<Rightarrow> int \<Rightarrow> error + 'a" where
  "py_index xs i =
     (if 0 \<le> i \<and> i < int (length xs) then Inr (xs ! nat i)
      else if - int (length xs) \<le> i \<and> i < 0 then Inr (xs ! nat (i + int (length xs)))
      else Inl IndexError)"

subsection \<open>Alt-tab\<close>

definition alt_tab :: "yutani \<Rightarrow> env \<Rightarrow> 'a key_msg_scheme \<Rightarrow> session \<Rightarrow> error + session" where
  "alt_tab Y E msg s =
     (let direction = (if modifiers msg AND MOD_LEFT_SHIFT Y \<noteq> 0 then 1 else - 1 :: int) in
      if length (windows_zorder s) < 1 then Inr s
      else
        (let s1 = (if tabbing s then s\<lparr>new_focused := new_focused s + direction\<rparr>
                   else s\<lparr>new_focused := int (length (windows_zorder s)) - 1 + direction,
                          alttab := Some (alttab_wid E),
                          trace := trace s @ [Alttab_create]\<rparr>);
             s2 = (if new_focused s1 < 0
                   then s1\<lparr>new_focused := int (length (windows_zorder s1)) - 1\<rparr>
                   else if new_focused s1 \<ge> int (length (windows_zorder s1))
                   then s1\<lparr>new_focused := 0\<rparr>
                   else s1);
             s3 = s2\<lparr>tabbing := True\<rparr>
         in case alttab s3 of
              None \<Rightarrow> Inl AttributeError
            | Some a \<Rightarrow> Inr (s3\<lparr>trace := trace s3 @ [Alttab_draw (new_focused s3)]\<rparr>)))"


definition finish_alt_tab :: "session \<Rightarrow> error + session" where
  "finish_alt_tab s =
     bind_e (py_index (windows_zorder s) (new_focused s))
       (\<lambda>w. case alttab s of
               None \<Rightarrow> Inl AttributeError
             | Some a \<Rightarrow>
                 Inr (s\<lparr>tabbing := False, new_focused := - 1,
                        trace := trace s @ [Focus_window (wid w), Alttab_close]\<rparr>))"


subsection \<open>The window list\<close>

text \<open>
  \<open>update_window_list\<close> asks the server for its windows and yields the advertisements
  that arrive until one of size \<open>0\<close>; it waits forever when none arrives.
\<close>

fun update_window_list :: "window_advertise list \<Rightarrow> window_advertise list option" where
  "update_window_list [] = None"
| "update_window_list (ad # rest) =
     (if ad_size ad = 0 then Some [] else map_option (Cons ad) (update_window_list rest))"

subsection \<open>The message loop\<close>

datatype message =
    MSG_SESSION_END
  | MSG_NOTIFY
  | MSG_TIMER_TICK
  | MSG_KEY_EVENT key_msg
  | MSG_WELCOME int int
  | MSG_RESIZE_OFFER int int int
  | MSG_WINDOW_MOUSE_EVENT mouse_msg
  | MSG_WINDOW_FOCUS_CHANGE int int
  | MSG_OTHER

definition on_notify :: "env \<Rightarrow> session \<Rightarrow> error + session" where
  "on_notify E s =
     (case update_window_list (adverts E) of
        None \<Rightarrow> Inl Never_returns
      | Some zs \<Rightarrow>
          Inr (s\<lparr>windows_zorder := zs, windows := sort_key wid zs,
                 trace := trace s @ [Query_windows, PanelWindow_draw (panel s)]\<rparr>))"

text \<open>\<open>int(time.time())\<close> truncates towards zero.\<close>

definition py_int :: "real \<Rightarrow> int" where
  "py_int t = (if t \<ge> 0 then \<lfloor>t\<rfloor> else \<lceil>t\<rceil>)"

text \<open>
  The timer branch: when the wall-clock second has changed, reap a child, remember the
  second and redraw the panel; then, if any animation is registered, advance them.
\<close>

definition tick_second :: "env \<Rightarrow> session \<Rightarrow> session" where
  "tick_second E s =
     (let tick = py_int (now E) in
      if tick \<noteq> current_time s
      then s\<lparr>current_time := tick, trace := trace s @ [Waitpid, PanelWindow_draw (panel s)]\<rparr>
      else s)"

definition on_timer_tick :: "env \<Rightarrow> session \<Rightarrow> error + session" where
  "on_timer_tick E s =
     (let s1 = tick_second E s in
      if animations (wallpaper s1) \<noteq> []
      then bind_e (animate (now E) (wallpaper s1))
             (\<lambda>w. Inr (s1\<lparr>wallpaper := w, trace := trace s1 @ [Wallpaper_draw]\<rparr>))
      else Inr s1)"

text \<open>
  The key branch of the loop when the message is not for the application runner is a
  row of \<open>if\<close> statements, each tested on the state the one before left. They are, in
  the order of the source: Alt+F2 opens the application runner unless one is open;
  Alt+F1 opens the applications menu unless a menu is open; Ctrl+Alt+T launches a
  terminal; Ctrl+F11 toggles the panel; releasing Alt ends alt-tabbing; Alt+Tab and
  Alt+Shift+Tab switch; a key for an open menu goes to that menu.
\<close>

definition key_alt :: "yutani \<Rightarrow> key_msg \<Rightarrow> bool" where
  "key_alt Y msg \<longleftrightarrow> modifiers msg AND MOD_LEFT_ALT Y \<noteq> 0"

definition key_ctrl :: "yutani \<Rightarrow> key_msg \<Rightarrow> bool" where
  "key_ctrl Y msg \<longleftrightarrow> modifiers msg AND MOD_LEFT_CTRL Y \<noteq> 0"

definition key_is_down :: "yutani \<Rightarrow> key_msg \<Rightarrow> bool" where
  "key_is_down Y msg \<longleftrightarrow> action msg = ACTION_DOWN Y"

definition bind_runner :: "yutani \<Rightarrow> env \<Rightarrow> key_msg \<Rightarrow> session \<Rightarrow> session" where
  "bind_runner Y E msg s =
     (if app_runner s = None \<and> key_alt Y msg \<and> keycode msg = F2 Y \<and> key_is_down Y msg
      then s\<lparr>app_runner := Some (ApplicationRunnerWindow (runner_wid E) (path_bins E)),
             trace := trace s @ [Runner_create, Runner_draw [] []]\<rparr>
      else s)"

definition bind_menu :: "yutani \<Rightarrow> env \<Rightarrow> key_msg \<Rightarrow> session \<Rightarrow> session" where
  "bind_menu Y E msg s =
     (if menus E = [] \<and> key_alt Y msg \<and> keycode msg = F1 Y \<and> key_is_down Y msg
      then s\<lparr>trace := trace s @ [Menu_activate]\<rparr> else s)"

definition bind_terminal :: "yutani \<Rightarrow> key_msg \<Rightarrow> session \<Rightarrow> session" where
  "bind_terminal Y msg s =
     (if key_ctrl Y msg \<and> key_alt Y msg \<and> keycode msg = 116 \<and> key_is_down Y msg
      then s\<lparr>trace := trace s @ [Launch_app ''terminal'' False]\<rparr> else s)"

definition bind_toggle :: "yutani \<Rightarrow> key_msg \<Rightarrow> session \<Rightarrow> session" where
  "bind_toggle Y msg s =
     (if key_ctrl Y msg \<and> keycode msg = F11 Y \<and> key_is_down Y msg
      then (let (p, es) = toggle_visibility (panel s)
            in s\<lparr>panel := p, trace := trace s @ es\<rparr>)
      else s)"

definition bind_release_alt :: "yutani \<Rightarrow> key_msg \<Rightarrow> session \<Rightarrow> error + session" where
  "bind_release_alt Y msg s =
     (if tabbing s \<and> (keycode msg = 0 \<or> keycode msg = LEFT_ALT Y) \<and>
         modifiers msg = 0 \<and> action msg = ACTION_UP Y
      then finish_alt_tab s else Inr s)"

definition bind_alt_tab :: "yutani \<Rightarrow> env \<Rightarrow> key_msg \<Rightarrow> session \<Rightarrow> error + session" where
  "bind_alt_tab Y E msg s =
     (if key_alt Y msg \<and> keycode msg = 9 \<and> key_is_down Y msg
      then alt_tab Y E msg s else Inr s)"

definition menu_key :: "env \<Rightarrow> key_msg \<Rightarrow> session \<Rightarrow> session" where
  "menu_key E msg s =
     (if wid msg \<in> fst ` set (menus E)
      then s\<lparr>trace := trace s @ [Menu_keyboard_event (wid msg)]\<rparr> else s)"

definition global_keys :: "yutani \<Rightarrow> env \<Rightarrow> key_msg \<Rightarrow> session \<Rightarrow> error + session" where
  "global_keys Y E msg s =
     bind_e (bind_release_alt Y msg
               (bind_toggle Y msg (bind_terminal Y msg (bind_menu Y E msg (bind_runner Y E msg s)))))
       (\<lambda>s5. bind_e (bind_alt_tab Y E msg s5) (\<lambda>s6. Inr (menu_key E msg s6)))"

definition on_key_event :: "yutani \<Rightarrow> env \<Rightarrow> key_msg \<Rightarrow> session \<Rightarrow> error + session" where
  "on_key_event Y E msg s =
     (case app_runner s of
        None \<Rightarrow> global_keys Y E msg s
      | Some r \<Rightarrow>
          if wid msg = wid r
          then bind_e (key_action Y msg r)
                 (\<lambda>(r', es). Inr (s\<lparr>app_runner := r', trace := trace s @ es\<rparr>))
          else global_keys Y E msg s)"

definition on_mouse_event :: "yutani \<Rightarrow> env \<Rightarrow> mouse_msg \<Rightarrow> session \<Rightarrow> error + session" where
  "on_mouse_event Y E msg s =
     bind_e
       (if wid msg = wid (panel s) then
          (let (p, es) = PanelWindow_mouse_action (widget_result E) msg (panel s)
           in Inr (s\<lparr>panel := p, trace := trace s @ es\<rparr>))
        else if wid msg = wid (wallpaper s) then
          bind_e (WallpaperWindow_mouse_action Y (now E) msg (wallpaper s))
            (\<lambda>(w, es). Inr (s\<lparr>wallpaper := w, trace := trace s @ es\<rparr>))
        else Inr s)
       (\<lambda>s1. Inr
          (case map_of (menus E) (wid msg) of
             None \<Rightarrow> s1
           | Some m \<Rightarrow>
               (let hm = (if new_x msg \<ge> 0 \<and> new_x msg < win_width m \<and>
                             new_y msg \<ge> 0 \<and> new_y msg < win_height m
                          then Some (wid msg)
                          else if hovered_menu (panel s1) = Some (wid msg) then None
                          else hovered_menu (panel s1))
                in s1\<lparr>panel := (panel s1)\<lparr>hovered_menu := hm\<rparr>,
                      trace := trace s1 @ [Menu_mouse_action (wid msg)]\<rparr>)))"

definition on_resize_offer :: "env \<Rightarrow> int \<Rightarrow> int \<Rightarrow> int \<Rightarrow> session \<Rightarrow> error + session" where
  "on_resize_offer E i w h s =
     (if i = wid (panel s) then
        (let (p, es) = PanelWindow_finish_resize w h (panel s)
         in Inr (s\<lparr>panel := p, trace := trace s @ es\<rparr>))
      else if i = wid (wallpaper s) then
        bind_e (WallpaperWindow_finish_resize (now E) w h (wallpaper s))
          (\<lambda>(wp, es). Inr (s\<lparr>wallpaper := wp, trace := trace s @ es\<rparr>))
      else Inr s)"

text \<open>One turn of the \<open>while\<close> loop: the message polled is handled by its branch.\<close>

fun dispatch :: "yutani \<Rightarrow> env \<Rightarrow> message \<Rightarrow> session \<Rightarrow> error + session" where
  "dispatch Y E MSG_SESSION_END s =
     Inr (s\<lparr>exited := True, trace := trace s @ [Panel_close, Wallpaper_close]\<rparr>)"
| "dispatch Y E MSG_NOTIFY s = on_notify E s"
| "dispatch Y E MSG_TIMER_TICK s = on_timer_tick E s"
| "dispatch Y E (MSG_KEY_EVENT msg) s = on_key_event Y E msg s"
| "dispatch Y E (MSG_WELCOME w h) s =
     Inr (s\<lparr>trace := trace s @ [Panel_resize w PANEL_HEIGHT, Wallpaper_resize w h]\<rparr>)"
| "dispatch Y E (MSG_RESIZE_OFFER i w h) s = on_resize_offer E i w h s"
| "dispatch Y E (MSG_WINDOW_MOUSE_EVENT msg) s = on_mouse_event Y E msg s"
| "dispatch Y E (MSG_WINDOW_FOCUS_CHANGE i focused) s =
     Inr (if i \<in> fst ` set (menus E) \<and> focused = 0
          then s\<lparr>trace := trace s @ [Menu_leave i]\<rparr> else s)"
| "dispatch Y E MSG_OTHER s = Inr s"

text \<open>
  Handling a sequence of polled messages, each with what the surroundings answer; the
  loop is left after \<open>MSG_SESSION_END\<close>.
\<close>

fun run_loop :: "yutani \<Rightarrow> session \<Rightarrow> (env \<times> message) list \<Rightarrow> error + session" where
  "run_loop Y s [] = Inr s"
| "run_loop Y s ((E, m) # rest) =
     (if exited s then Inr s else bind_e (dispatch Y E m s) (\<lambda>s'. run_loop Y s' rest))"


subsection \<open>A concrete session\<close>

text \<open>
  The state after start-up on a 1024 by 768 display with three desktop icons and no
  window open, and surroundings that answer with two windows.
\<close>

definition sample_icons :: "wallpaper_icon list" where
  "sample_icons =
     [\<lparr>width = 100, hilighted = False, height = 80\<rparr>,
      \<lparr>width = 100, hilighted = False, height = 80\<rparr>,
      \<lparr>width = 100, hilighted = False, height = 80\<rparr>]"

definition sample_session :: session where
  "sample_session =
     \<lparr>panel = \<lparr>wid = 1, win_width = 1024, win_height = 28, widgets = toaru_widgets,
                focused_widget = None, hovered_menu = None, visible = True\<rparr>,
      wallpaper = \<lparr>wid = 2, win_width = 1024, win_height = 768, background = 0,
                    new_background = None, icons = sample_icons, focused_icon = None,
                    animations = []\<rparr>,
      app_runner = None, tabbing = False, alttab = None, new_focused = - 1,
      windows_zorder = [], windows = [], current_time = 0, exited = False, trace = []\<rparr>"

definition sample_windows :: "window_advertise list" where
  "sample_windows =
     [\<lparr>wid = 12, ad_size = 40, flags = 1, name = ''alpha'', icon = ''terminal''\<rparr>,
      \<lparr>wid = 11, ad_size = 40, flags = 0, name = ''beta'', icon = ''folder''\<rparr>]"

definition sample_env :: env where
  "sample_env =
     \<lparr>now = 100, runner_wid = 7, alttab_wid = 8,
      adverts = sample_windows @ [\<lparr>wid = 0, ad_size = 0, flags = 0, name = [], icon = []\<rparr>],
      path_bins = [''ls'', ''ln'', ''cat''], widget_result = False, menus = []\<rparr>"


definition tab_msg :: key_msg where
  "tab_msg = \<lparr>wid = 12, modifiers = 4, keycode = 9, action = 1, key = CHR 0x09\<rparr>"

section \<open>Vocabulary for the focus protocol\<close>

text \<open>
  The focus indications agree with the focus reference: the focused widget, and no
  other, is highlighted. After start-up nothing is focused and nothing is highlighted.
\<close>

definition focus_flags_ok :: "'a widget_scheme list \<Rightarrow> nat option \<Rightarrow> bool" where
  "focus_flags_ok ws f \<longleftrightarrow>
     (\<forall>i < length ws. hilighted (ws ! i) \<longleftrightarrow> f = Some i) \<and>
     (case f of None \<Rightarrow> True | Some i \<Rightarrow> i < length ws)"

definition focus_inv :: "session \<Rightarrow> bool" where
  "focus_inv s \<longleftrightarrow>
     focus_flags_ok (widgets (panel s)) (focused_widget (panel s)) \<and>
     focus_flags_ok (icons (wallpaper s)) (focused_icon (wallpaper s))"

definition initial_focus :: "session \<Rightarrow> bool" where
  "initial_focus s \<longleftrightarrow>
     focused_widget (panel s) = None \<and> focused_icon (wallpaper s) = None \<and>
     list_all (\<lambda>w. \<not> hilighted w) (widgets (panel s)) \<and>
     list_all (\<lambda>w. \<not> hilighted w) (icons (wallpaper s))"

text \<open>
  The focus calls a change of focus from \<open>old\<close> to \<open>new\<close> has to make on a surface: none
  when the focus stays, else the leave of the old one (if any) followed by the enter of
  the new one (if any).
\<close>

definition focus_calls :: "surface \<Rightarrow> nat option \<Rightarrow> nat option \<Rightarrow> effect list" where
  "focus_calls S old new =
     (if new = old then []
      else (case old of None \<Rightarrow> [] | Some i \<Rightarrow> [Focus_leave S i]) @
           (case new of None \<Rightarrow> [] | Some j \<Rightarrow> [Focus_enter S j]))"

fun is_focus_call :: "surface \<Rightarrow> effect \<Rightarrow> bool" where
  "is_focus_call S (Focus_leave S' i) = (S' = S)"
| "is_focus_call S (Focus_enter S' i) = (S' = S)"
| "is_focus_call S e = False"

text \<open>A step that leaves the focus state alone and makes no focus call.\<close>

definition quiet :: "session \<Rightarrow> session \<Rightarrow> bool" where
  "quiet s s' \<longleftrightarrow>
     widgets (panel s') = widgets (panel s) \<and>
     focused_widget (panel s') = focused_widget (panel s) \<and>
     icons (wallpaper s') = icons (wallpaper s) \<and>
     focused_icon (wallpaper s') = focused_icon (wallpaper s) \<and>
     (\<exists>es. trace s' = trace s @ es \<and> (\<forall>S. filter (is_focus_call S) es = []))"

text \<open>A mouse message for the panel of the concrete session, over the clock widget.\<close>

definition clock_hover :: mouse_msg where
  "clock_hover = \<lparr>wid = 1, command = 4, buttons = 0, new_x = 950, new_y = 10\<rparr>"

definition date_hover :: mouse_msg where
  "date_hover = \<lparr>wid = 1, command = 4, buttons = 0, new_x = 900, new_y = 10\<rparr>"

text \<open>The concrete session after the pointer came to rest on the clock, then on the date.\<close>

definition on_clock_session :: session where
  "on_clock_session =
     sample_session
       \<lparr>panel := (panel sample_session)
           \<lparr>widgets := toaru_widgets[4 := \<lparr>width = 80, hilighted = True\<rparr>],
            focused_widget := Some 4\<rparr>,
        trace := [Focus_enter Panel 4,
                  Panel_draw [(0, 0), (140, 818), (818, 0), (846, 0), (916, 0), (996, 0)]]\<rparr>"

definition on_date_session :: session where
  "on_date_session =
     sample_session
       \<lparr>panel := (panel sample_session)
           \<lparr>widgets := toaru_widgets[3 := \<lparr>width = 70, hilighted = True\<rparr>],
            focused_widget := Some 3\<rparr>,
        trace := [Focus_enter Panel 4,
                  Panel_draw [(0, 0), (140, 818), (818, 0), (846, 0), (916, 0), (996, 0)],
                  Focus_leave Panel 4, Focus_enter Panel 3,
                  Panel_draw [(0, 0), (140, 818), (818, 0), (846, 0), (916, 0), (996, 0)]]\<rparr>"

section \<open>Vocabulary for the application runner in the loop\<close>

fun is_runner_effect :: "effect \<Rightarrow> bool" where
  "is_runner_effect (Runner_draw d c) = True"
| "is_runner_effect Runner_close = True"
| "is_runner_effect (Launch_app c t) = True"
| "is_runner_effect e = False"

text \<open>
  The concrete session with the application runner open (window id 7), and a
  Ctrl+Alt+T key-down that arrives for another window (id 12).
\<close>

definition runner_open_session :: session where
  "runner_open_session =
     sample_session\<lparr>app_runner := Some (ApplicationRunnerWindow 7 [''ls'', ''ln'', ''cat''])\<rparr>"

definition ctrl_alt_t :: key_msg where
  "ctrl_alt_t = \<lparr>wid = 12, modifiers = 5, keycode = 116, action = 1, key = CHR ''t''\<rparr>"

section \<open>Vocabulary for the cross-fade\<close>




section \<open>Vocabulary for the revised alt-tab, overlay and cross-fade statements\<close>





text \<open>A step that keeps the global \<open>app_runner\<close> and creates no application runner.\<close>

definition no_create :: "session \<Rightarrow> session \<Rightarrow> bool" where
  "no_create s s' \<longleftrightarrow>
     app_runner s' = app_runner s \<and>
     (\<exists>es. trace s' = trace s @ es \<and> Runner_create \<notin> set es)"




section \<open>Layout: extents of the panel widgets\<close>

lemma chain_union:
  "contiguous_from a es \<Longrightarrow> \<forall>e \<in> set es. fst e \<le> snd e \<Longrightarrow>
   (\<Union>e \<in> set es. extent_set e) = {a ..< chain_end a es} \<and> a \<le> chain_end a es"
proof (induction es arbitrary: a)
  case Nil then show ?case by simp
next
  case (Cons e es)
  then have ih: "(\<Union>e \<in> set es. extent_set e) = {snd e ..< chain_end (snd e) es}" "snd e \<le> chain_end (snd e) es"
    by auto
  from Cons.prems have "fst e = a" "fst e \<le> snd e" by auto
  with ih show ?case by (auto simp: extent_set_def)
qed

lemma chain_disjoint:
  "contiguous_from a es \<Longrightarrow> \<forall>e \<in> set es. fst e \<le> snd e \<Longrightarrow> non_overlapping es"
proof (induction es arbitrary: a)
  case Nil then show ?case by (simp add: non_overlapping_def)
next
  case (Cons e es)
  then have ih: "non_overlapping es" by auto
  from Cons.prems have c: "contiguous_from (snd e) es" "\<forall>e \<in> set es. fst e \<le> snd e" by auto
  from chain_union[OF c] have u: "(\<Union>e \<in> set es. extent_set e) = {snd e ..< chain_end (snd e) es}" by simp
  have d: "extent_set e \<inter> extent_set (es ! k) = {}" if "k < length es" for k
  proof -
    have "extent_set (es ! k) \<subseteq> {snd e ..< chain_end (snd e) es}" using u that nth_mem by blast
    then show ?thesis by (auto simp: extent_set_def)
  qed
  show ?case unfolding non_overlapping_def
  proof (intro allI impI)
    fix i j assume "i < length (e # es)" "j < length (e # es)" "i \<noteq> j"
    then show "extent_set ((e # es) ! i) \<inter> extent_set ((e # es) ! j) = {}"
      using ih d by (cases i; cases j) (auto simp: non_overlapping_def)
  qed
qed

lemma extents_length: "length (extents W a ws) = length ws"
  by (induction ws arbitrary: a) (auto simp: Let_def)

lemma extents_contig: "contiguous_from a (extents W a ws)"
  by (induction ws arbitrary: a) (auto simp: Let_def)

lemma draw_walk_offsets: "map fst (draw_walk W a ws) = map fst (extents W a ws)"
  by (induction ws arbitrary: a) (auto simp: Let_def)

lemma fixed_total_all_fixed:
  "\<forall>w \<in> set ws. \<not> flexible w \<Longrightarrow> fixed_total ws = sum_list (map width ws)"
  by (induction ws) (auto simp: fixed_total_def)

lemma extents_ordered:
  "\<forall>w \<in> set ws. \<not> flexible w \<longrightarrow> 0 \<le> width w \<Longrightarrow>
   length (filter flexible ws) \<le> 1 \<Longrightarrow>
   ((\<exists>w \<in> set ws. flexible w) \<longrightarrow> a + fixed_total ws \<le> W) \<Longrightarrow>
   (\<forall>e \<in> set (extents W a ws). fst e \<le> snd e) \<and>
   chain_end a (extents W a ws) = (if \<exists>w \<in> set ws. flexible w then W else a + fixed_total ws)"
proof (induction ws arbitrary: a)
  case Nil then show ?case by (simp add: fixed_total_def)
next
  case (Cons w ws)
  show ?case
  proof (cases "flexible w")
    case True
    with Cons.prems(2) have nf: "\<forall>w \<in> set ws. \<not> flexible w"
      by (auto simp: filter_empty_conv)
    then have ft: "fixed_total ws = sum_list (map width ws)" by (rule fixed_total_all_fixed)
    from True have ft': "fixed_total (w # ws) = fixed_total ws" by (simp add: fixed_total_def)
    from Cons.prems(3) True ft' have le: "a + fixed_total ws \<le> W" by auto
    have "(\<forall>e \<in> set (extents W (W - fixed_total ws) ws). fst e \<le> snd e) \<and>
      chain_end (W - fixed_total ws) (extents W (W - fixed_total ws) ws)
        = (if \<exists>w \<in> set ws. flexible w then W else (W - fixed_total ws) + fixed_total ws)"
      using Cons.prems(1) nf by (intro Cons.IH) (auto simp: filter_empty_conv[THEN iffD2])
    with nf True le ft show ?thesis by (auto simp: flexible_def Let_def)
  next
    case False
    then have ft': "fixed_total (w # ws) = width w + fixed_total ws" by (simp add: fixed_total_def)
    from False Cons.prems(1) have w0: "0 \<le> width w" by simp
    have "(\<forall>e \<in> set (extents W (a + width w) ws). fst e \<le> snd e) \<and>
      chain_end (a + width w) (extents W (a + width w) ws)
        = (if \<exists>w \<in> set ws. flexible w then W else (a + width w) + fixed_total ws)"
      using Cons.prems False ft' by (intro Cons.IH) (auto)
    with False w0 ft' show ?thesis by (auto simp: flexible_def Let_def)
  qed
qed

lemma extents_nth_snd:
  "i < length ws \<Longrightarrow>
   snd (extents W a ws ! i) =
     (if width (ws ! i) \<noteq> -1 then fst (extents W a ws ! i) + width (ws ! i)
      else W - sum_list (map width (drop (Suc i) ws)))"
  by (induction ws arbitrary: a i) (auto simp: Let_def nth_Cons split: nat.splits)

lemma extents_nth_fst:
  "i < length ws \<Longrightarrow>
   fst (extents W a ws ! i) = (if i = 0 then a else snd (extents W a ws ! (i - 1)))"
proof (induction ws arbitrary: a i)
  case Nil then show ?case by simp
next
  case (Cons w ws)
  let ?r = "(if width w \<noteq> -1 then a + width w else W - sum_list (map width ws))"
  have ex: "extents W a (w # ws) = (a, ?r) # extents W ?r ws" by (simp add: Let_def)
  show ?case
  proof (cases i)
    case 0 then show ?thesis by (simp add: Let_def)
  next
    case (Suc k)
    with Cons.prems have k: "k < length ws" by simp
    from Cons.IH[OF k, of ?r] Suc show ?thesis
      unfolding ex by (cases k) simp_all
  qed
qed

lemma widget_under_mouse_first:
  "(case widget_under_mouse W x a k ws of
      None \<Rightarrow> \<forall>i < length ws. x \<notin> extent_set (extents W a ws ! i)
    | Some r \<Rightarrow> k \<le> r \<and> r - k < length ws \<and> x \<in> extent_set (extents W a ws ! (r - k)) \<and>
               (\<forall>j < r - k. x \<notin> extent_set (extents W a ws ! j)))"
proof (induction ws arbitrary: a k)
  case Nil then show ?case by simp
next
  case (Cons w ws)
  let ?r = "(if width w \<noteq> -1 then a + width w else W - sum_list (map width ws))"
  show ?case
  proof (cases "a \<le> x \<and> x < ?r")
    case True
    then have "widget_under_mouse W x a k (w # ws) = Some k" by (auto simp: Let_def split: if_splits)
    moreover have "extents W a (w # ws) ! 0 = (a, ?r)" by (simp add: Let_def)
    moreover from True have "x \<in> extent_set (a, ?r)" by (auto simp: extent_set_def split: if_splits)
    ultimately show ?thesis by simp
  next
    case False
    then have out: "x \<notin> extent_set (a, ?r)" by (auto simp: extent_set_def)
    from False have eq: "widget_under_mouse W x a k (w # ws) = widget_under_mouse W x ?r (Suc k) ws"
      by (auto simp: Let_def split: if_splits)
    have ex: "extents W a (w # ws) = (a, ?r) # extents W ?r ws" by (simp add: Let_def)
    show ?thesis
    proof (cases "widget_under_mouse W x ?r (Suc k) ws")
      case None
      with Cons.IH[of ?r "Suc k"] have "\<forall>i < length ws. x \<notin> extent_set (extents W ?r ws ! i)" by simp
      with out have "\<forall>i < length (w # ws). x \<notin> extent_set (((a, ?r) # extents W ?r ws) ! i)"
        by (auto simp: nth_Cons split: nat.splits)
      with None eq ex show ?thesis by simp
    next
      case (Some r)
      with Cons.IH[of ?r "Suc k"] have h: "Suc k \<le> r" "r - Suc k < length ws"
        "x \<in> extent_set (extents W ?r ws ! (r - Suc k))"
        "\<forall>j < r - Suc k. x \<notin> extent_set (extents W ?r ws ! j)" by simp_all
      from h(1) have rk: "r - k = Suc (r - Suc k)" by simp
      have "\<forall>j < r - k. x \<notin> extent_set (((a, ?r) # extents W ?r ws) ! j)"
        using out h(4) rk by (auto simp: nth_Cons split: nat.splits)
      with Some eq ex h rk show ?thesis by simp
    qed
  qed
qed

text \<open>
  Claim C1, as the code has it. For every widget sequence and every surface width the
  extents form a chain that starts at \<open>0\<close>: a fixed widget occupies
  \<open>[offset, offset + width)\<close>, the flexible widget
  \<open>[offset, total_width - widths of all later widgets)\<close>, and every widget starts where
  its predecessor ended. When, in addition, the fixed widths are not negative, at most
  one widget is flexible and the fixed widths fit into the surface, the extents are
  pairwise disjoint and cover exactly \<open>[0, total_width)\<close> if a flexible widget is
  present, and \<open>[0, sum of the widths)\<close> if none is.
\<close>

theorem panel_layout_extents:
  "contiguous_from 0 (extents W 0 ws) \<and>
   (\<forall>i < length ws.
      fst (extents W 0 ws ! i) = (if i = 0 then 0 else snd (extents W 0 ws ! (i - 1))) \<and>
      snd (extents W 0 ws ! i) =
        (if flexible (ws ! i) then W - sum_list (map width (drop (Suc i) ws))
         else fst (extents W 0 ws ! i) + width (ws ! i))) \<and>
   ((\<forall>w \<in> set ws. \<not> flexible w \<longrightarrow> 0 \<le> width w) \<and>
    length (filter flexible ws) \<le> 1 \<and>
    ((\<exists>w \<in> set ws. flexible w) \<longrightarrow> fixed_total ws \<le> W) \<longrightarrow>
      non_overlapping (extents W 0 ws) \<and>
      covers (extents W 0 ws)
        {0 ..< (if \<exists>w \<in> set ws. flexible w then W else fixed_total ws)})"
proof (intro conjI impI)
  let ?es = "extents W 0 ws"
  show c: "contiguous_from 0 ?es" by (rule extents_contig)
  show "\<forall>i < length ws.
            fst (?es ! i) = (if i = 0 then 0 else snd (?es ! (i - 1))) \<and>
            snd (?es ! i) =
              (if flexible (ws ! i) then W - sum_list (map width (drop (Suc i) ws))
               else fst (?es ! i) + width (ws ! i))"
    using extents_nth_fst[where ws=ws and W=W and a=0] extents_nth_snd[where ws=ws and W=W and a=0]
    by (simp add: flexible_def)
  assume h: "(\<forall>w \<in> set ws. \<not> flexible w \<longrightarrow> 0 \<le> width w) \<and>
    length (filter flexible ws) \<le> 1 \<and>
    ((\<exists>w \<in> set ws. flexible w) \<longrightarrow> fixed_total ws \<le> W)"
  then have o: "\<forall>e \<in> set ?es. fst e \<le> snd e"
    and e: "chain_end 0 ?es = (if \<exists>w \<in> set ws. flexible w then W else fixed_total ws)"
    using extents_ordered[where ws=ws and a=0 and W=W] by auto
  from chain_disjoint[OF c o] show "non_overlapping ?es" .
  from chain_union[OF c o] e
  show "covers ?es {0 ..< (if \<exists>w \<in> set ws. flexible w then W else fixed_total ws)}"
    by (simp add: covers_def)
qed

theorem panel_layout_extents_witness:
  "list_all (\<lambda>w. 0 \<le> width w \<or> flexible w) toaru_widgets \<and>
   length (filter flexible toaru_widgets) = 1 \<and>
   fixed_total toaru_widgets \<le> 1024 \<and>
   contiguous_from 0 (extents 1024 0 toaru_widgets) \<and>
   non_overlapping (extents 1024 0 toaru_widgets) \<and>
   covers (extents 1024 0 toaru_widgets) {0 ..< 1024} \<and>
   extents 1024 0 toaru_widgets
     = [(0, 140), (140, 818), (818, 846), (846, 916), (916, 996), (996, 1024)]"
proof -
  have h1: "\<forall>w \<in> set toaru_widgets. \<not> flexible w \<longrightarrow> 0 \<le> width w"
    by (simp add: toaru_widgets_def flexible_def)
  have h2: "length (filter flexible toaru_widgets) \<le> 1"
    by (simp add: toaru_widgets_def flexible_def)
  have h3: "(\<exists>w \<in> set toaru_widgets. flexible w) \<longrightarrow> fixed_total toaru_widgets \<le> 1024"
    by (simp add: toaru_widgets_def flexible_def fixed_total_def)
  have fl: "\<exists>w \<in> set toaru_widgets. flexible w"
    by (simp add: toaru_widgets_def flexible_def)
  have ex: "extents 1024 0 toaru_widgets
     = [(0, 140), (140, 818), (818, 846), (846, 916), (916, 996), (996, 1024)]"
    by (simp add: toaru_widgets_def)
  from panel_layout_extents[of 1024 toaru_widgets] h1 h2 h3 fl
  have "non_overlapping (extents 1024 0 toaru_widgets) \<and>
        covers (extents 1024 0 toaru_widgets) {0 ..< 1024}" by simp
  moreover have "list_all (\<lambda>w. 0 \<le> width w \<or> flexible w) toaru_widgets"
    by (simp add: toaru_widgets_def flexible_def)
  moreover have "length (filter flexible toaru_widgets) = 1"
    by (simp add: toaru_widgets_def flexible_def)
  moreover have "fixed_total toaru_widgets \<le> 1024"
    by (simp add: toaru_widgets_def flexible_def fixed_total_def)
  moreover have "contiguous_from 0 (extents 1024 0 toaru_widgets)"
    unfolding ex by simp
  ultimately show ?thesis using ex by blast
qed

text \<open>
  Without the two side conditions the layout of C1 fails: with widths \<open>100, flexible, 50\<close>
  on a surface of width \<open>120\<close> the first and the last extent overlap, and a single fixed
  widget of width \<open>10\<close> does not cover a surface of width \<open>20\<close>.
\<close>

theorem panel_layout_counterexample:
  "length (filter flexible [\<lparr>width = 100, hilighted = False\<rparr>, \<lparr>width = -1, hilighted = False\<rparr>, \<lparr>width = 50, hilighted = False\<rparr>]) \<le> 1 \<and>
   \<not> non_overlapping (extents 120 0 [\<lparr>width = 100, hilighted = False\<rparr>, \<lparr>width = -1, hilighted = False\<rparr>, \<lparr>width = 50, hilighted = False\<rparr>]) \<and>
   length (filter flexible [\<lparr>width = 10, hilighted = False\<rparr>]) \<le> 1 \<and>
   \<not> covers (extents 20 0 [\<lparr>width = 10, hilighted = False\<rparr>]) {0 ..< 20}"
proof -
  have ex: "extents 120 0 [\<lparr>width = 100, hilighted = False\<rparr>, \<lparr>width = -1, hilighted = False\<rparr>, \<lparr>width = 50, hilighted = False\<rparr>]
              = [(0, 100), (100, 70), (70, 120)]" by simp
  have "(80::int) \<in> extent_set ([(0, 100), (100, 70), (70, 120)] ! 0) \<inter>
                  extent_set ([(0, 100), (100, 70), (70, 120)] ! 2)"
    by (simp add: extent_set_def)
  then have "\<not> non_overlapping [(0, 100), (100, 70), (70, 120)]"
    unfolding non_overlapping_def
    by (intro notI) (metis (no_types, lifting) empty_iff length_Cons list.size(3) lessI Suc_lessD zero_neq_numeral numeral_2_eq_2)
  moreover have "\<not> covers (extents 20 0 [\<lparr>width = 10, hilighted = False\<rparr>]) {0 ..< 20}"
  proof
    assume "covers (extents 20 0 [\<lparr>width = 10, hilighted = False\<rparr>]) {0 ..< 20}"
    then have "{0 ..< (10::int)} = {0 ..< 20}" by (simp add: covers_def extent_set_def)
    then have "(15::int) \<in> {0 ..< 10}" by simp
    then show False by simp
  qed
  ultimately show ?thesis using ex by (simp add: flexible_def)
qed

text \<open>
  Claim C2. For every widget sequence and every pointer x-coordinate, the hit-test of
  \<open>PanelWindow.mouse_action\<close> returns the first widget whose extent contains \<open>x\<close>, and
  none when no extent contains \<open>x\<close>; so an \<open>x\<close> inside the extent of widget \<open>i\<close> and of
  no earlier widget hit-tests to widget \<open>i\<close>. The offsets of the hit-test are those the
  drawing loop passes to the widgets.
\<close>

theorem hit_test_first_extent:
  "(case widget_under_mouse W x 0 0 ws of
      None \<Rightarrow> \<forall>i < length ws. x \<notin> extent_set (extents W 0 ws ! i)
    | Some i \<Rightarrow> i < length ws \<and> x \<in> extent_set (extents W 0 ws ! i) \<and>
               (\<forall>j < i. x \<notin> extent_set (extents W 0 ws ! j))) \<and>
   (\<forall>i < length ws.
      x \<in> extent_set (extents W 0 ws ! i) \<and> (\<forall>j < i. x \<notin> extent_set (extents W 0 ws ! j))
        \<longrightarrow> widget_under_mouse W x 0 0 ws = Some i) \<and>
   map fst (draw_walk W 0 ws) = map fst (extents W 0 ws)"
proof -
  have A: "(case widget_under_mouse W x 0 0 ws of
      None \<Rightarrow> \<forall>i < length ws. x \<notin> extent_set (extents W 0 ws ! i)
    | Some i \<Rightarrow> i < length ws \<and> x \<in> extent_set (extents W 0 ws ! i) \<and>
               (\<forall>j < i. x \<notin> extent_set (extents W 0 ws ! j)))"
    using widget_under_mouse_first[where W=W and x=x and a=0 and k=0 and ws=ws] by (simp split: option.splits)
  have B: "widget_under_mouse W x 0 0 ws = Some i"
    if "i < length ws" "x \<in> extent_set (extents W 0 ws ! i)"
       "\<forall>j < i. x \<notin> extent_set (extents W 0 ws ! j)" for i
  proof (cases "widget_under_mouse W x 0 0 ws")
    case None
    with A that show ?thesis by simp
  next
    case (Some r)
    with A have r: "r < length ws" "x \<in> extent_set (extents W 0 ws ! r)"
      "\<forall>j < r. x \<notin> extent_set (extents W 0 ws ! j)" by simp_all
    have "r = i" using r that by (meson linorder_neqE_nat)
    with Some show ?thesis by simp
  qed
  from A B draw_walk_offsets[where W=W and a=0 and ws=ws] show ?thesis by blast
qed

theorem hit_test_first_extent_witness:
  "3 < length toaru_widgets \<and>
   900 \<in> extent_set (extents 1024 0 toaru_widgets ! 3) \<and>
   900 \<notin> extent_set (extents 1024 0 toaru_widgets ! 0) \<and>
   900 \<notin> extent_set (extents 1024 0 toaru_widgets ! 1) \<and>
   900 \<notin> extent_set (extents 1024 0 toaru_widgets ! 2) \<and>
   widget_under_mouse 1024 900 0 0 toaru_widgets = Some 3"
proof -
  have ex: "extents 1024 0 toaru_widgets
     = [(0, 140), (140, 818), (818, 846), (846, 916), (916, 996), (996, 1024)]"
    by (simp add: toaru_widgets_def)
  have h1: "3 < length toaru_widgets" by (simp add: toaru_widgets_def)
  have h2: "900 \<in> extent_set (extents 1024 0 toaru_widgets ! 3)"
    unfolding ex by (simp add: extent_set_def)
  have h3: "\<forall>j < 3. 900 \<notin> extent_set (extents 1024 0 toaru_widgets ! j)"
    unfolding ex by (auto simp: extent_set_def less_Suc_eq numeral_3_eq_3)
  from hit_test_first_extent[where W=1024 and x=900 and ws=toaru_widgets] h1 h2 h3
  have "widget_under_mouse 1024 900 0 0 toaru_widgets = Some 3" by blast
  moreover have "900 \<notin> extent_set (extents 1024 0 toaru_widgets ! 0) \<and>
   900 \<notin> extent_set (extents 1024 0 toaru_widgets ! 1) \<and>
   900 \<notin> extent_set (extents 1024 0 toaru_widgets ! 2)"
    unfolding ex by (simp add: extent_set_def)
  ultimately show ?thesis using h1 h2 by blast
qed

section \<open>Volume widget: clamping and mute\<close>

lemma set_volume_in_range:
  "0 \<le> volume s \<Longrightarrow> volume s < 2 ^ 32 \<Longrightarrow> set_volume s = Inr (s\<lparr>mixer := volume s\<rparr>)"
  by (simp add: set_volume_def)

text \<open>
  Claim C5. From every level \<open>v \<ge> 0xE0000000\<close>, \<open>volume_up\<close> yields exactly
  \<open>0xF0000000\<close>; from every level \<open>v < 0x20000000\<close>, \<open>volume_down\<close> yields exactly \<open>0\<close>;
  both write the new level to the mixer. Starting unmuted at a level that fits the
  unsigned 32-bit mixer field, a click mutes (level \<open>0\<close>) and the next click restores
  the level held before the mute, in the widget and in the mixer.
\<close>

theorem volume_clamp:
  "(0xE0000000 \<le> volume s \<longrightarrow>
      (\<exists>s'. volume_up s = Inr s' \<and> volume s' = 0xF0000000 \<and> mixer s' = 0xF0000000)) \<and>
   (volume s < 0x20000000 \<longrightarrow>
      (\<exists>s'. volume_down s = Inr s' \<and> volume s' = 0 \<and> mixer s' = 0)) \<and>
   (\<not> muted s \<and> 0 \<le> volume s \<and> volume s < 2 ^ 32 \<and>
    command m1 = CLICK Y \<and> command m2 = CLICK Y \<longrightarrow>
      (\<exists>s1 s2. VolumeWidget_mouse_action Y m1 s = Inr (True, s1) \<and>
               muted s1 \<and> volume s1 = 0 \<and>
               VolumeWidget_mouse_action Y m2 s1 = Inr (True, s2) \<and>
               \<not> muted s2 \<and> volume s2 = volume s \<and> mixer s2 = volume s))"
proof (intro conjI impI)
  assume "0xE0000000 \<le> volume s"
  then show "\<exists>s'. volume_up s = Inr s' \<and> volume s' = 0xF0000000 \<and> mixer s' = 0xF0000000"
    by (cases "volume s = 0xE0000000") (auto simp: volume_up_def set_volume_def)
next
  assume "volume s < 0x20000000"
  then show "\<exists>s'. volume_down s = Inr s' \<and> volume s' = 0 \<and> mixer s' = 0"
    by (simp add: volume_down_def set_volume_def)
next
  assume a: "\<not> muted s \<and> 0 \<le> volume s \<and> volume s < 2 ^ 32 \<and>
    command m1 = CLICK Y \<and> command m2 = CLICK Y"
  let ?s1 = "s\<lparr>muted := True, previous_volume := volume s, volume := 0, mixer := 0\<rparr>"
  let ?s2 = "?s1\<lparr>muted := False, volume := volume s, mixer := volume s\<rparr>"
  from a have 1: "VolumeWidget_mouse_action Y m1 s = Inr (True, ?s1)"
    by (simp add: VolumeWidget_mouse_action_def set_volume_def)
  from a have 2: "VolumeWidget_mouse_action Y m2 ?s1 = Inr (True, ?s2)"
    by (simp add: VolumeWidget_mouse_action_def set_volume_def)
  from 1 2 show "\<exists>s1 s2. VolumeWidget_mouse_action Y m1 s = Inr (True, s1) \<and>
               muted s1 \<and> volume s1 = 0 \<and>
               VolumeWidget_mouse_action Y m2 s1 = Inr (True, s2) \<and>
               \<not> muted s2 \<and> volume s2 = volume s \<and> mixer s2 = volume s"
    by (intro exI[of _ ?s1] exI[of _ ?s2]) simp
qed

theorem volume_clamp_witness:
  "(0xE0000000::int) \<le> volume \<lparr>volume = 0xE8000000, muted = False, previous_volume = 0, mixer = 0xE8000000\<rparr> \<and>
   volume_up \<lparr>volume = 0xE8000000, muted = False, previous_volume = 0, mixer = 0xE8000000\<rparr>
     = Inr \<lparr>volume = 0xF0000000, muted = False, previous_volume = 0, mixer = 0xF0000000\<rparr> \<and>
   volume \<lparr>volume = 0x18000000, muted = False, previous_volume = 0, mixer = 0x18000000\<rparr> < 0x20000000 \<and>
   volume_down \<lparr>volume = 0x18000000, muted = False, previous_volume = 0, mixer = 0x18000000\<rparr>
     = Inr \<lparr>volume = 0, muted = False, previous_volume = 0, mixer = 0\<rparr> \<and>
   \<not> muted \<lparr>volume = 0x18000000, muted = False, previous_volume = 0, mixer = 0x18000000\<rparr> \<and>
   command \<lparr>wid = 1, command = 0, buttons = 1, new_x = 830, new_y = 5\<rparr> = CLICK sample_yutani \<and>
   bind_e (VolumeWidget_mouse_action sample_yutani
             \<lparr>wid = 1, command = 0, buttons = 1, new_x = 830, new_y = 5\<rparr>
             \<lparr>volume = 0x18000000, muted = False, previous_volume = 0, mixer = 0x18000000\<rparr>)
          (\<lambda>(r, s1). VolumeWidget_mouse_action sample_yutani
             \<lparr>wid = 1, command = 0, buttons = 1, new_x = 830, new_y = 5\<rparr> s1)
     = Inr (True, \<lparr>volume = 0x18000000, muted = False, previous_volume = 0x18000000,
                   mixer = 0x18000000\<rparr>)"
  using volume_clamp[of "\<lparr>volume = 0xE8000000, muted = False, previous_volume = 0, mixer = 0xE8000000\<rparr>"]
        volume_clamp[of "\<lparr>volume = 0x18000000, muted = False, previous_volume = 0, mixer = 0x18000000\<rparr>"
                        "\<lparr>wid = 1, command = 0, buttons = 1, new_x = 830, new_y = 5\<rparr>" sample_yutani
                        "\<lparr>wid = 1, command = 0, buttons = 1, new_x = 830, new_y = 5\<rparr>"]
  by (simp add: volume_up_def volume_down_def set_volume_def VolumeWidget_mouse_action_def
        sample_yutani_def bind_e_def)

section \<open>Application runner: completion\<close>

lemma find_sorted_Min:
  "sorted ys \<Longrightarrow>
   find P ys = (if \<exists>x \<in> set ys. P x then Some (Min {x \<in> set ys. P x}) else None)"
proof (induction ys)
  case Nil then show ?case by simp
next
  case (Cons y ys)
  show ?case
  proof (cases "P y")
    case True
    have "Min {x \<in> set (y # ys). P x} = y"
    proof (rule Min_eqI)
      show "finite {x \<in> set (y # ys). P x}" by simp
      show "y \<in> {x \<in> set (y # ys). P x}" using True by simp
      fix z assume "z \<in> {x \<in> set (y # ys). P x}"
      then show "y \<le> z" using Cons.prems by auto
    qed
    with True show ?thesis by simp
  next
    case False
    then have "{x \<in> set (y # ys). P x} = {x \<in> set ys. P x}" by auto
    with False Cons show ?thesis by simp
  qed
qed

lemma try_complete_spec:
  "(complete (try_complete r), completed (try_complete r)) = completion_spec (bins r) (data r) \<and>
   data (try_complete r) = data r \<and> bins (try_complete r) = bins r \<and>
   wid (try_complete r) = wid r"
  using find_sorted_Min[of "sort (bins r)" "\<lambda>b. prefix (data r) b"]
  by (auto simp: try_complete_def completion_spec_def split: option.splits)

lemma runner_inv_try_complete: "runner_inv (try_complete r)"
  by (simp add: runner_inv_def try_complete_def split: option.splits)

lemma key_action_inv:
  "runner_inv r \<Longrightarrow> key_action Y msg r = Inr (Some r', es) \<Longrightarrow> runner_inv r' \<and> bins r' = bins r"
  using runner_inv_try_complete try_complete_spec
  by (auto simp: key_action_def Let_def runner_inv_def split: if_splits)

lemma run_keys_inv:
  "runner_inv r \<Longrightarrow> run_keys Y r ms = Inr (Some r') \<Longrightarrow> runner_inv r' \<and> bins r' = bins r"
proof (induction ms arbitrary: r)
  case Nil then show ?case by simp
next
  case (Cons m ms)
  from Cons.prems(2) obtain r1 es where k: "key_action Y m r = Inr (Some r1, es)"
    and run: "run_keys Y r1 ms = Inr (Some r')"
    by (auto split: sum.splits option.splits prod.splits)
  from key_action_inv[OF Cons.prems(1) k] have "runner_inv r1" "bins r1 = bins r" by auto
  with Cons.IH[OF _ run] show ?case by simp
qed

lemma runner_inv_new: "runner_inv (ApplicationRunnerWindow w bs)"
  by (simp add: runner_inv_def ApplicationRunnerWindow_def)

text \<open>
  Claim C6. In every state the overlay reaches from its creation by any sequence of key
  messages: \<open>try_complete\<close> sets the completion to the part after the typed buffer of the
  lexicographically first executable name that has the buffer as a prefix, and clears it
  (empty, not completed) when the buffer is empty or no name has it as a prefix; after
  every character insert and every backspace the state holds exactly that completion
  for the new buffer.
\<close>

theorem runner_completion:
  assumes run: "run_keys Y (ApplicationRunnerWindow w bs) ms = Inr (Some r)"
  shows "(complete (try_complete r), completed (try_complete r))
           = completion_spec (bins r) (data r) \<and>
         (action msg = ACTION_DOWN Y \<and> keycode msg \<noteq> ESCAPE Y \<and> keycode msg \<noteq> DEL Y \<and>
          key msg \<noteq> CHR 0x00 \<and> key msg \<noteq> CHR 0x0A \<and> key msg \<noteq> CHR 0x08 \<and>
          of_char (key msg) < (128::nat) \<longrightarrow>
            (\<exists>r'. key_action Y msg r = Inr (Some r', [Runner_draw (data r') (complete r')]) \<and>
                  data r' = data r @ [key msg] \<and>
                  (complete r', completed r') = completion_spec bs (data r'))) \<and>
         (action msg = ACTION_DOWN Y \<and> keycode msg \<noteq> ESCAPE Y \<and> keycode msg \<noteq> DEL Y \<and>
          key msg = CHR 0x08 \<longrightarrow>
            (\<exists>r'. key_action Y msg r = Inr (Some r', [Runner_draw (data r') (complete r')]) \<and>
                  data r' = butlast (data r) \<and>
                  (complete r', completed r') = completion_spec bs (data r')))"
proof (intro conjI impI)
  from run_keys_inv[OF runner_inv_new run] have inv: "runner_inv r" and b: "bins r = bs"
    by (simp_all add: ApplicationRunnerWindow_def)
  show "(complete (try_complete r), completed (try_complete r)) = completion_spec (bins r) (data r)"
    using try_complete_spec by blast
  {
    assume a: "action msg = ACTION_DOWN Y \<and> keycode msg \<noteq> ESCAPE Y \<and> keycode msg \<noteq> DEL Y \<and>
          key msg \<noteq> CHR 0x00 \<and> key msg \<noteq> CHR 0x0A \<and> key msg \<noteq> CHR 0x08 \<and>
          of_char (key msg) < (128::nat)"
    let ?r = "try_complete (r\<lparr>data := data r @ [key msg]\<rparr>)"
    have "key_action Y msg r = Inr (Some ?r, [Runner_draw (data ?r) (complete ?r)])"
      using a by (simp add: key_action_def Let_def)
    moreover have "data ?r = data r @ [key msg]"
      "(complete ?r, completed ?r) = completion_spec bs (data ?r)"
      using try_complete_spec[of "r\<lparr>data := data r @ [key msg]\<rparr>"] b by simp_all
    ultimately show "\<exists>r'. key_action Y msg r = Inr (Some r', [Runner_draw (data r') (complete r')]) \<and>
              data r' = data r @ [key msg] \<and>
              (complete r', completed r') = completion_spec bs (data r')" by blast
  }
  {
    assume a: "action msg = ACTION_DOWN Y \<and> keycode msg \<noteq> ESCAPE Y \<and> keycode msg \<noteq> DEL Y \<and>
          key msg = CHR 0x08"
    let ?r = "if data r \<noteq> [] then try_complete (r\<lparr>data := butlast (data r)\<rparr>) else r"
    have 1: "key_action Y msg r = Inr (Some ?r, [Runner_draw (data ?r) (complete ?r)])"
      using a by (simp add: key_action_def Let_def)
    have 2: "data ?r = butlast (data r)"
      using try_complete_spec[of "r\<lparr>data := butlast (data r)\<rparr>"] by simp
    have 3: "(complete ?r, completed ?r) = completion_spec bs (data ?r)"
    proof (cases "data r = []")
      case True
      with inv show ?thesis by (simp add: runner_inv_def completion_spec_def)
    next
      case False
      then show ?thesis using try_complete_spec[of "r\<lparr>data := butlast (data r)\<rparr>"] b by simp
    qed
    from 1 2 3 show "\<exists>r'. key_action Y msg r = Inr (Some r', [Runner_draw (data r') (complete r')]) \<and>
              data r' = butlast (data r) \<and>
              (complete r', completed r') = completion_spec bs (data r')" by blast
  }
qed

theorem runner_completion_witness:
  "run_keys sample_yutani (ApplicationRunnerWindow 7 [''ls'', ''ln'', ''cat'']) [key_down CHR ''l'']
     = Inr (Some \<lparr>wid = 7, data = ''l'', complete = ''n'', completed = True,
                  bins = [''ls'', ''ln'', ''cat'']\<rparr>) \<and>
   completion_spec [''ls'', ''ln'', ''cat''] ''l'' = (''n'', True) \<and>
   key_action sample_yutani (key_down CHR ''s'')
       \<lparr>wid = 7, data = ''l'', complete = ''n'', completed = True,
        bins = [''ls'', ''ln'', ''cat'']\<rparr>
     = Inr (Some \<lparr>wid = 7, data = ''ls'', complete = [], completed = True,
                  bins = [''ls'', ''ln'', ''cat'']\<rparr>, [Runner_draw ''ls'' []]) \<and>
   key_action sample_yutani (key_down CHR 0x08)
       \<lparr>wid = 7, data = ''l'', complete = ''n'', completed = True,
        bins = [''ls'', ''ln'', ''cat'']\<rparr>
     = Inr (Some \<lparr>wid = 7, data = [], complete = [], completed = False,
                  bins = [''ls'', ''ln'', ''cat'']\<rparr>, [Runner_draw [] []])"
proof -
  let ?bs = "[''ls'', ''ln'', ''cat'']"
  let ?r = "\<lparr>wid = 7, data = ''l'', complete = ''n'', completed = True, bins = ?bs\<rparr>"
  have tc: "try_complete \<lparr>wid = 7, data = ''l'', complete = [], completed = False, bins = ?bs\<rparr> = ?r"
    by (simp add: try_complete_def)
  have run: "run_keys sample_yutani (ApplicationRunnerWindow 7 ?bs) [key_down CHR ''l''] = Inr (Some ?r)"
    by (simp add: key_action_def key_down_def sample_yutani_def ApplicationRunnerWindow_def tc)
  have tc2: "try_complete ?r = ?r" by (simp add: try_complete_def)
  from runner_completion[OF run, of "key_down CHR ''s''"] tc2
  have spec: "completion_spec ?bs ''l'' = (''n'', True)" by simp
  have k1: "key_action sample_yutani (key_down CHR ''s'') ?r
     = Inr (Some \<lparr>wid = 7, data = ''ls'', complete = [], completed = True, bins = ?bs\<rparr>,
            [Runner_draw ''ls'' []])"
    by (simp add: key_action_def key_down_def sample_yutani_def try_complete_def)
  have k2: "key_action sample_yutani (key_down CHR 0x08) ?r
     = Inr (Some \<lparr>wid = 7, data = [], complete = [], completed = False, bins = ?bs\<rparr>,
            [Runner_draw [] []])"
    by (simp add: key_action_def key_down_def sample_yutani_def try_complete_def)
  from run spec k1 k2 show ?thesis by blast
qed

section \<open>Alt-tab: index arithmetic\<close>





















text \<open>
  Claim C10. With an empty z-order list, \<open>alt_tab\<close> returns before it touches anything:
  the tabbing flag, the tab index and the overlay reference are unchanged, and nothing is
  created or drawn (the session, with its log of calls, is the one before).
\<close>

theorem alt_tab_no_windows:
  "windows_zorder s = [] \<Longrightarrow> alt_tab Y E msg s = Inr s"
  by (simp add: alt_tab_def)

theorem alt_tab_no_windows_witness:
  "windows_zorder sample_session = [] \<and>
   alt_tab sample_yutani sample_env tab_msg sample_session = Inr sample_session"
proof -
  have h: "windows_zorder sample_session = []" by (simp add: sample_session_def)
  from alt_tab_no_windows[OF h] h show ?thesis by simp
qed

section \<open>Focus: one focused widget, leave before enter\<close>

lemma filter_at_most_one:
  "(\<forall>i < length xs. \<forall>j < length xs. P (xs ! i) \<and> P (xs ! j) \<longrightarrow> i = j) \<Longrightarrow>
   length (filter P xs) \<le> 1"
proof (induction xs)
  case Nil then show ?case by simp
next
  case (Cons x xs)
  have ih: "length (filter P xs) \<le> 1"
  proof (rule Cons.IH, intro allI impI)
    fix i j assume "i < length xs" "j < length xs" "P (xs ! i) \<and> P (xs ! j)"
    with Cons.prems[rule_format, of "Suc i" "Suc j"] show "i = j" by simp
  qed
  show ?case
  proof (cases "P x")
    case False with ih show ?thesis by simp
  next
    case True
    have "filter P xs = []"
    proof (rule ccontr)
      assume "filter P xs \<noteq> []"
      then obtain y where "y \<in> set xs" "P y" by (auto simp: filter_empty_conv)
      then obtain k where "k < length xs" "xs ! k = y" by (auto simp: in_set_conv_nth)
      with Cons.prems[rule_format, of 0 "Suc k"] True \<open>P y\<close> show False by simp
    qed
    with True show ?thesis by simp
  qed
qed

lemma focus_flags_at_most_one:
  "focus_flags_ok ws f \<Longrightarrow> length (filter hilighted ws) \<le> 1"
  by (rule filter_at_most_one) (auto simp: focus_flags_ok_def)

lemma widget_under_mouse_bound:
  "widget_under_mouse W x 0 0 ws = Some j \<Longrightarrow> j < length ws"
  using widget_under_mouse_first[where W=W and x=x and a=0 and k=0 and ws=ws] by simp

lemma icon_under_mouse_range:
  "icon_under_mouse H x y ox oy lw i ics = Some r \<Longrightarrow> i \<le> r \<and> r < i + length ics"
proof (induction ics arbitrary: ox oy lw i)
  case Nil then show ?case by simp
next
  case (Cons ic ics)
  then show ?case
    by (fastforce simp: Let_def split: if_splits)
qed

lemma icon_under_mouse_bound:
  "icon_under_mouse H x y ox oy lw 0 ics = Some j \<Longrightarrow> j < length ics"
  using icon_under_mouse_range[of H x y ox oy lw 0 ics j] by simp

lemma focus_change_flags:
  assumes ok: "focus_flags_ok ws old" and ne: "new \<noteq> old"
      and b: "case new of None \<Rightarrow> True | Some j \<Rightarrow> j < length ws"
  shows "focus_flags_ok
           (case new of
              None \<Rightarrow> (case old of None \<Rightarrow> ws | Some i \<Rightarrow> ws[i := focus_leave (ws ! i)])
            | Some j \<Rightarrow> (case old of None \<Rightarrow> ws | Some i \<Rightarrow> ws[i := focus_leave (ws ! i)])
                         [j := focus_enter ((case old of None \<Rightarrow> ws | Some i \<Rightarrow> ws[i := focus_leave (ws ! i)]) ! j)])
           new"
  using assms
  by (auto simp: focus_flags_ok_def focus_enter_def focus_leave_def nth_list_update
           split: option.splits)


lemma is_focus_call_draw [simp]: "is_focus_call S (PanelWindow_draw p) = False"
  by (simp add: PanelWindow_draw_def)

lemma panel_mouse_focus:
  assumes ok: "focus_flags_ok (widgets p) (focused_widget p)"
      and act: "PanelWindow_mouse_action r msg p = (p', es)"
  shows "focus_flags_ok (widgets p') (focused_widget p') \<and>
         filter (is_focus_call Panel) es = focus_calls Panel (focused_widget p) (focused_widget p') \<and>
         filter (is_focus_call Wallpaper) es = []"
proof -
  let ?under = "widget_under_mouse (win_width p) (new_x msg) 0 0 (widgets p)"
  consider (leave) "(command msg = 5 \<or> new_y msg \<ge> win_height p) \<and> focused_widget p \<noteq> None"
    | (change) "\<not> ((command msg = 5 \<or> new_y msg \<ge> win_height p) \<and> focused_widget p \<noteq> None)"
        "new_y msg < win_height p" "?under \<noteq> focused_widget p"
    | (same) "\<not> ((command msg = 5 \<or> new_y msg \<ge> win_height p) \<and> focused_widget p \<noteq> None)"
        "new_y msg < win_height p" "?under = focused_widget p"
    | (outside) "\<not> ((command msg = 5 \<or> new_y msg \<ge> win_height p) \<and> focused_widget p \<noteq> None)"
        "\<not> new_y msg < win_height p"
    by blast
  then show ?thesis
  proof cases
    case leave
    then obtain i where i: "focused_widget p = Some i" by auto
    with leave act have p': "p' = p\<lparr>widgets := (widgets p)[i := focus_leave (widgets p ! i)],
                         focused_widget := None\<rparr>"
      and es: "es = [Focus_leave Panel i, PanelWindow_draw p']"
      by (auto simp: PanelWindow_mouse_action_def Let_def)
    from ok i have "focus_flags_ok (widgets p') (focused_widget p')"
      unfolding p' by (auto simp: focus_flags_ok_def focus_leave_def nth_list_update)
    with i es p' show ?thesis by (simp add: focus_calls_def)
  next
    case change
    let ?ws1 = "(case focused_widget p of None \<Rightarrow> widgets p
                 | Some i \<Rightarrow> (widgets p)[i := focus_leave (widgets p ! i)])"
    let ?ws2 = "(case ?under of None \<Rightarrow> ?ws1 | Some j \<Rightarrow> ?ws1[j := focus_enter (?ws1 ! j)])"
    let ?e1 = "(case focused_widget p of None \<Rightarrow> [] | Some i \<Rightarrow> [Focus_leave Panel i])"
    let ?e2 = "(case ?under of None \<Rightarrow> [] | Some j \<Rightarrow> [Focus_enter Panel j])"
    from change act have p': "p' = p\<lparr>widgets := ?ws2, focused_widget := ?under\<rparr>"
      and es: "es = ?e1 @ ?e2 @ (if ?e1 @ ?e2 \<noteq> [] then [PanelWindow_draw p'] else [])"
      by (auto simp: PanelWindow_mouse_action_def Let_def)
    have b: "case ?under of None \<Rightarrow> True | Some j \<Rightarrow> j < length (widgets p)"
      using widget_under_mouse_bound by (auto split: option.splits)
    from focus_change_flags[OF ok change(3) b]
    have "focus_flags_ok (widgets p') (focused_widget p')"
      unfolding p' by (simp split: option.splits)
    moreover have "filter (is_focus_call Panel) es
        = focus_calls Panel (focused_widget p) (focused_widget p')"
      using change(3) unfolding es p' by (auto simp: focus_calls_def split: option.splits)
    moreover have "filter (is_focus_call Wallpaper) es = []"
      unfolding es by (auto split: option.splits)
    ultimately show ?thesis by blast
  next
    case same
    with act have "p' = p" "filter (is_focus_call Panel) es = []"
      "filter (is_focus_call Wallpaper) es = []"
      by (auto simp: PanelWindow_mouse_action_def Let_def split: option.splits if_splits)
    with ok show ?thesis by (simp add: focus_calls_def)
  next
    case outside
    with act have "p' = p" "es = []"
      by (auto simp: PanelWindow_mouse_action_def Let_def)
    with ok show ?thesis by (simp add: focus_calls_def)
  qed
qed

lemma wallpaper_draw_keeps:
  "WallpaperWindow_draw t w = Inr w' \<Longrightarrow>
   icons w' = icons w \<and> focused_icon w' = focused_icon w \<and>
   win_height w' = win_height w \<and> win_width w' = win_width w \<and> wid w' = wid w"
  by (auto simp: WallpaperWindow_draw_def Let_def split: option.splits if_splits)

lemma wallpaper_mouse_focus:
  assumes ok: "focus_flags_ok (icons w) (focused_icon w)"
      and act: "WallpaperWindow_mouse_action Y t msg w = Inr (w', es)"
  shows "focus_flags_ok (icons w') (focused_icon w') \<and>
         filter (is_focus_call Wallpaper) es = focus_calls Wallpaper (focused_icon w) (focused_icon w') \<and>
         filter (is_focus_call Panel) es = []"
proof -
  let ?under = "icon_under_mouse (win_height w) (new_x msg) (new_y msg) 20 50 0 0 (icons w)"
  consider (leave) "(command msg = 5 \<or> new_y msg \<ge> win_height w) \<and> focused_icon w \<noteq> None"
    | (change) "\<not> ((command msg = 5 \<or> new_y msg \<ge> win_height w) \<and> focused_icon w \<noteq> None)"
        "?under \<noteq> focused_icon w"
    | (same) "\<not> ((command msg = 5 \<or> new_y msg \<ge> win_height w) \<and> focused_icon w \<noteq> None)"
        "?under = focused_icon w"
    by blast
  then show ?thesis
  proof cases
    case leave
    then obtain i where i: "focused_icon w = Some i" by auto
    let ?w1 = "w\<lparr>icons := (icons w)[i := focus_leave (icons w ! i)], focused_icon := None\<rparr>"
    from leave i act have d: "WallpaperWindow_draw t ?w1 = Inr w'"
      and es: "es = [Focus_leave Wallpaper i, Wallpaper_draw]"
      by (auto simp: WallpaperWindow_mouse_action_def Let_def bind_e_def split: sum.splits)
    from wallpaper_draw_keeps[OF d] have k: "icons w' = icons ?w1" "focused_icon w' = focused_icon ?w1"
      by simp_all
    from ok i have "focus_flags_ok (icons w') (focused_icon w')"
      unfolding k by (auto simp: focus_flags_ok_def focus_leave_def nth_list_update)
    with i es k show ?thesis by (simp add: focus_calls_def)
  next
    case change
    let ?is1 = "(case focused_icon w of None \<Rightarrow> icons w
                 | Some i \<Rightarrow> (icons w)[i := focus_leave (icons w ! i)])"
    let ?is2 = "(case ?under of None \<Rightarrow> ?is1 | Some j \<Rightarrow> ?is1[j := focus_enter (?is1 ! j)])"
    let ?e1 = "(case focused_icon w of None \<Rightarrow> [] | Some i \<Rightarrow> [Focus_leave Wallpaper i])"
    let ?e2 = "(case ?under of None \<Rightarrow> [] | Some j \<Rightarrow> [Focus_enter Wallpaper j])"
    let ?w1 = "w\<lparr>icons := ?is2, focused_icon := ?under\<rparr>"
    from change(2) have ne: "?e1 @ ?e2 \<noteq> []"
      by (cases "focused_icon w"; cases ?under) simp_all
    from change act ne have d: "WallpaperWindow_draw t ?w1 = Inr w'"
      and es: "es = ?e1 @ ?e2 @ [Wallpaper_draw]"
      by (auto simp: WallpaperWindow_mouse_action_def Let_def bind_e_def split: sum.splits)
    from wallpaper_draw_keeps[OF d] have k: "icons w' = ?is2" "focused_icon w' = ?under"
      by simp_all
    have b: "case ?under of None \<Rightarrow> True | Some j \<Rightarrow> j < length (icons w)"
      using icon_under_mouse_bound by (auto split: option.splits)
    from focus_change_flags[OF ok change(2) b]
    have "focus_flags_ok (icons w') (focused_icon w')"
      unfolding k by (simp split: option.splits)
    moreover have "filter (is_focus_call Wallpaper) es
        = focus_calls Wallpaper (focused_icon w) (focused_icon w')"
      using change(2) unfolding es k by (auto simp: focus_calls_def split: option.splits)
    moreover have "filter (is_focus_call Panel) es = []"
      unfolding es by (auto split: option.splits)
    ultimately show ?thesis by blast
  next
    case same
    with act have "icons w' = icons w" "focused_icon w' = focused_icon w"
      "filter (is_focus_call Panel) es = []" "filter (is_focus_call Wallpaper) es = []"
      by (auto simp: WallpaperWindow_mouse_action_def Let_def add_animation_def
               split: option.splits if_splits)
    with ok show ?thesis by (simp add: focus_calls_def)
  qed
qed

lemma quiet_refl: "quiet s s"
  by (simp add: quiet_def)

lemma quiet_trans: "quiet s s1 \<Longrightarrow> quiet s1 s2 \<Longrightarrow> quiet s s2"
  by (auto simp: quiet_def)

lemma quiet_trace:
  "(\<forall>S. filter (is_focus_call S) es = []) \<Longrightarrow> quiet s (s\<lparr>trace := trace s @ es\<rparr>)"
  by (simp add: quiet_def)

lemma alt_tab_quiet: "alt_tab Y E msg s = Inr s' \<Longrightarrow> quiet s s'"
  by (auto simp: alt_tab_def Let_def quiet_def split: if_splits option.splits)

lemma finish_alt_tab_quiet: "finish_alt_tab s = Inr s' \<Longrightarrow> quiet s s'"
  by (auto simp: finish_alt_tab_def bind_e_def quiet_def split: sum.splits option.splits)

lemma toggle_quiet:
  "toggle_visibility p = (p', es) \<Longrightarrow>
   widgets p' = widgets p \<and> focused_widget p' = focused_widget p \<and>
   (\<forall>S. filter (is_focus_call S) es = [])"
  by (auto simp: toggle_visibility_def filter_empty_conv split: if_splits)

lemma toggle_step_quiet:
  "quiet s (let (p, es) = toggle_visibility (panel s) in s\<lparr>panel := p, trace := trace s @ es\<rparr>)"
proof -
  obtain p es where t: "toggle_visibility (panel s) = (p, es)"
    by (cases "toggle_visibility (panel s)")
  from toggle_quiet[OF t] t show ?thesis by (simp add: quiet_def)
qed

lemma key_action_quiet:
  "key_action Y msg r = Inr (r', es) \<Longrightarrow> (\<forall>S. filter (is_focus_call S) es = [])"
  by (auto simp: key_action_def Let_def split: if_splits)

lemma bind_runner_quiet: "quiet s (bind_runner Y E msg s)"
  by (simp add: bind_runner_def quiet_def)

lemma bind_menu_quiet: "quiet s (bind_menu Y E msg s)"
  by (simp add: bind_menu_def quiet_def)

lemma bind_terminal_quiet: "quiet s (bind_terminal Y msg s)"
  by (simp add: bind_terminal_def quiet_def)

lemma bind_toggle_quiet: "quiet s (bind_toggle Y msg s)"
  using toggle_step_quiet[of s] by (simp add: bind_toggle_def quiet_refl)

lemma bind_release_alt_quiet: "bind_release_alt Y msg s = Inr s' \<Longrightarrow> quiet s s'"
  by (auto simp: bind_release_alt_def split: if_splits intro: finish_alt_tab_quiet quiet_refl)

lemma bind_alt_tab_quiet: "bind_alt_tab Y E msg s = Inr s' \<Longrightarrow> quiet s s'"
  by (auto simp: bind_alt_tab_def split: if_splits intro: alt_tab_quiet quiet_refl)

lemma menu_key_quiet: "quiet s (menu_key E msg s)"
  by (simp add: menu_key_def quiet_def)

lemma global_keys_quiet: "global_keys Y E msg s = Inr s' \<Longrightarrow> quiet s s'"
proof -
  assume g: "global_keys Y E msg s = Inr s'"
  define s4 where "s4 = bind_toggle Y msg (bind_terminal Y msg (bind_menu Y E msg (bind_runner Y E msg s)))"
  have q04: "quiet s s4" unfolding s4_def
    by (rule quiet_trans[OF quiet_trans[OF quiet_trans[OF bind_runner_quiet bind_menu_quiet]
          bind_terminal_quiet] bind_toggle_quiet])
  from g obtain s5 s6 where 5: "bind_release_alt Y msg s4 = Inr s5"
    and 6: "bind_alt_tab Y E msg s5 = Inr s6" and 7: "s' = menu_key E msg s6"
    unfolding global_keys_def bind_e_def s4_def by (auto split: sum.splits)
  have "quiet s6 s'" unfolding 7 by (rule menu_key_quiet)
  from quiet_trans[OF quiet_trans[OF quiet_trans[OF q04 bind_release_alt_quiet[OF 5]]
        bind_alt_tab_quiet[OF 6]] this]
  show ?thesis .
qed

lemma on_key_event_quiet: "on_key_event Y E msg s = Inr s' \<Longrightarrow> quiet s s'"
proof -
  assume k: "on_key_event Y E msg s = Inr s'"
  show ?thesis
  proof (cases "\<exists>r. app_runner s = Some r \<and> wid msg = wid r")
    case False
    with k have "global_keys Y E msg s = Inr s'"
      by (auto simp: on_key_event_def split: option.splits if_splits)
    then show ?thesis by (rule global_keys_quiet)
  next
    case True
    then obtain r where r: "app_runner s = Some r" "wid msg = wid r" by blast
    with k obtain r' es where ka: "key_action Y msg r = Inr (r', es)"
      and s': "s' = s\<lparr>app_runner := r', trace := trace s @ es\<rparr>"
      by (auto simp: on_key_event_def bind_e_def split: sum.splits prod.splits)
    from key_action_quiet[OF ka] show ?thesis unfolding s' by (simp add: quiet_def)
  qed
qed

lemma quiet_focus_calls:
  "quiet s s' \<Longrightarrow> focus_inv s \<Longrightarrow>
   focus_inv s' \<and>
   (\<exists>es. trace s' = trace s @ es \<and>
      filter (is_focus_call Panel) es
        = focus_calls Panel (focused_widget (panel s)) (focused_widget (panel s')) \<and>
      filter (is_focus_call Wallpaper) es
        = focus_calls Wallpaper (focused_icon (wallpaper s)) (focused_icon (wallpaper s')))"
  by (auto simp: quiet_def focus_inv_def focus_calls_def)

lemma animate_keeps:
  "animate t w = Inr w' \<Longrightarrow> icons w' = icons w \<and> focused_icon w' = focused_icon w"
  by (auto simp: animate_def bind_e_def split: sum.splits dest: wallpaper_draw_keeps)

lemma on_notify_quiet: "on_notify E s = Inr s' \<Longrightarrow> quiet s s'"
  by (auto simp: on_notify_def quiet_def split: option.splits)

lemma tick_second_quiet: "quiet s (tick_second E s)"
  by (simp add: tick_second_def quiet_def Let_def)

lemma on_timer_tick_quiet: "on_timer_tick E s = Inr s' \<Longrightarrow> quiet s s'"
proof -
  assume t: "on_timer_tick E s = Inr s'"
  define s1 where "s1 = tick_second E s"
  have q1: "quiet s s1" unfolding s1_def by (rule tick_second_quiet)
  from t have t': "(if animations (wallpaper s1) \<noteq> []
         then bind_e (animate (now E) (wallpaper s1))
                (\<lambda>w. Inr (s1\<lparr>wallpaper := w, trace := trace s1 @ [Wallpaper_draw]\<rparr>))
         else Inr s1) = Inr s'"
    unfolding on_timer_tick_def Let_def s1_def .
  have "quiet s1 s'"
  proof (cases "animations (wallpaper s1) \<noteq> []")
    case False with t' show ?thesis by (simp add: quiet_refl)
  next
    case True
    with t' obtain w where a: "animate (now E) (wallpaper s1) = Inr w"
      and s': "s' = s1\<lparr>wallpaper := w, trace := trace s1 @ [Wallpaper_draw]\<rparr>"
      by (auto simp: bind_e_def split: sum.splits)
    from animate_keeps[OF a] show ?thesis unfolding s' by (simp add: quiet_def)
  qed
  with q1 show ?thesis by (rule quiet_trans)
qed

lemma on_resize_offer_quiet: "on_resize_offer E i w h s = Inr s' \<Longrightarrow> quiet s s'"
  by (auto simp: on_resize_offer_def PanelWindow_finish_resize_def WallpaperWindow_finish_resize_def
        Let_def bind_e_def quiet_def split: if_splits sum.splits dest!: wallpaper_draw_keeps)

lemma on_mouse_event_focus:
  assumes inv: "focus_inv s" and m: "on_mouse_event Y E msg s = Inr s'"
  shows "focus_inv s' \<and>
   (\<exists>es. trace s' = trace s @ es \<and>
      filter (is_focus_call Panel) es
        = focus_calls Panel (focused_widget (panel s)) (focused_widget (panel s')) \<and>
      filter (is_focus_call Wallpaper) es
        = focus_calls Wallpaper (focused_icon (wallpaper s)) (focused_icon (wallpaper s')))"
proof -
  from m obtain s1 where 1: "(if wid msg = wid (panel s) then
          (let (p, es) = PanelWindow_mouse_action (widget_result E) msg (panel s)
           in Inr (s\<lparr>panel := p, trace := trace s @ es\<rparr>))
        else if wid msg = wid (wallpaper s) then
          bind_e (WallpaperWindow_mouse_action Y (now E) msg (wallpaper s))
            (\<lambda>(w, es). Inr (s\<lparr>wallpaper := w, trace := trace s @ es\<rparr>))
        else Inr s) = Inr s1"
    and 2: "s' = (case map_of (menus E) (wid msg) of
             None \<Rightarrow> s1
           | Some m \<Rightarrow>
               (let hm = (if new_x msg \<ge> 0 \<and> new_x msg < win_width m \<and>
                             new_y msg \<ge> 0 \<and> new_y msg < win_height m
                          then Some (wid msg)
                          else if hovered_menu (panel s1) = Some (wid msg) then None
                          else hovered_menu (panel s1))
                in s1\<lparr>panel := (panel s1)\<lparr>hovered_menu := hm\<rparr>,
                      trace := trace s1 @ [Menu_mouse_action (wid msg)]\<rparr>))"
    unfolding on_mouse_event_def bind_e_def by (auto split: sum.splits)
  have q2: "quiet s1 s'" unfolding 2 by (simp add: quiet_def Let_def split: option.splits)
  have step1: "focus_inv s1 \<and>
   (\<exists>es. trace s1 = trace s @ es \<and>
      filter (is_focus_call Panel) es
        = focus_calls Panel (focused_widget (panel s)) (focused_widget (panel s1)) \<and>
      filter (is_focus_call Wallpaper) es
        = focus_calls Wallpaper (focused_icon (wallpaper s)) (focused_icon (wallpaper s1)))"
  proof -
    consider (p) "wid msg = wid (panel s)"
      | (w) "wid msg \<noteq> wid (panel s)" "wid msg = wid (wallpaper s)"
      | (n) "wid msg \<noteq> wid (panel s)" "wid msg \<noteq> wid (wallpaper s)" by blast
    then show ?thesis
    proof cases
      case p
      obtain p' es where a: "PanelWindow_mouse_action (widget_result E) msg (panel s) = (p', es)"
        by (cases "PanelWindow_mouse_action (widget_result E) msg (panel s)")
      with 1 p have s1: "s1 = s\<lparr>panel := p', trace := trace s @ es\<rparr>" by simp
      from inv have "focus_flags_ok (widgets (panel s)) (focused_widget (panel s))"
        by (simp add: focus_inv_def)
      from panel_mouse_focus[OF this a] inv show ?thesis
        unfolding s1 by (simp add: focus_inv_def focus_calls_def)
    next
      case w
      with 1 obtain w' es where a: "WallpaperWindow_mouse_action Y (now E) msg (wallpaper s) = Inr (w', es)"
        and s1: "s1 = s\<lparr>wallpaper := w', trace := trace s @ es\<rparr>"
        by (auto simp: bind_e_def split: sum.splits)
      from inv have "focus_flags_ok (icons (wallpaper s)) (focused_icon (wallpaper s))"
        by (simp add: focus_inv_def)
      from wallpaper_mouse_focus[OF this a] inv show ?thesis
        unfolding s1 by (simp add: focus_inv_def focus_calls_def)
    next
      case n
      with 1 have "s1 = s" by simp
      with inv show ?thesis by (simp add: focus_calls_def)
    qed
  qed
  then obtain es1 where inv1: "focus_inv s1" and t1: "trace s1 = trace s @ es1"
    and f1: "filter (is_focus_call Panel) es1
        = focus_calls Panel (focused_widget (panel s)) (focused_widget (panel s1))"
      "filter (is_focus_call Wallpaper) es1
        = focus_calls Wallpaper (focused_icon (wallpaper s)) (focused_icon (wallpaper s1))"
    by blast
  from q2 obtain es2 where t2: "trace s' = trace s1 @ es2"
    and f2: "\<forall>S. filter (is_focus_call S) es2 = []"
    and k: "widgets (panel s') = widgets (panel s1)" "focused_widget (panel s') = focused_widget (panel s1)"
      "icons (wallpaper s') = icons (wallpaper s1)" "focused_icon (wallpaper s') = focused_icon (wallpaper s1)"
    by (auto simp: quiet_def)
  from inv1 k have "focus_inv s'" by (simp add: focus_inv_def)
  moreover have "trace s' = trace s @ (es1 @ es2)" using t1 t2 by simp
  moreover have "filter (is_focus_call Panel) (es1 @ es2)
        = focus_calls Panel (focused_widget (panel s)) (focused_widget (panel s'))"
    using f1 f2 k by simp
  moreover have "filter (is_focus_call Wallpaper) (es1 @ es2)
        = focus_calls Wallpaper (focused_icon (wallpaper s)) (focused_icon (wallpaper s'))"
    using f1 f2 k by simp
  ultimately show ?thesis by blast
qed

lemma dispatch_focus:
  assumes inv: "focus_inv s" and d: "dispatch Y E m s = Inr s'"
  shows "focus_inv s' \<and>
   (\<exists>es. trace s' = trace s @ es \<and>
      filter (is_focus_call Panel) es
        = focus_calls Panel (focused_widget (panel s)) (focused_widget (panel s')) \<and>
      filter (is_focus_call Wallpaper) es
        = focus_calls Wallpaper (focused_icon (wallpaper s)) (focused_icon (wallpaper s')))"
proof (cases m)
  case (MSG_WINDOW_MOUSE_EVENT msg)
  with d have "on_mouse_event Y E msg s = Inr s'" by simp
  from on_mouse_event_focus[OF inv this] show ?thesis .
next
  case MSG_SESSION_END
  with d have "quiet s s'" by (auto simp: quiet_def)
  from quiet_focus_calls[OF this inv] show ?thesis .
next
  case MSG_NOTIFY
  with d have "quiet s s'" by (simp add: on_notify_quiet)
  from quiet_focus_calls[OF this inv] show ?thesis .
next
  case MSG_TIMER_TICK
  with d have "quiet s s'" by (simp add: on_timer_tick_quiet)
  from quiet_focus_calls[OF this inv] show ?thesis .
next
  case (MSG_KEY_EVENT msg)
  with d have "quiet s s'" by (simp add: on_key_event_quiet)
  from quiet_focus_calls[OF this inv] show ?thesis .
next
  case (MSG_WELCOME w h)
  with d have "quiet s s'" by (auto simp: quiet_def)
  from quiet_focus_calls[OF this inv] show ?thesis .
next
  case (MSG_RESIZE_OFFER i w h)
  with d have "quiet s s'" by (simp add: on_resize_offer_quiet)
  from quiet_focus_calls[OF this inv] show ?thesis .
next
  case (MSG_WINDOW_FOCUS_CHANGE i f)
  with d have "quiet s s'" by (auto simp: quiet_def)
  from quiet_focus_calls[OF this inv] show ?thesis .
next
  case MSG_OTHER
  with d have "quiet s s'" by (auto simp: quiet_def)
  from quiet_focus_calls[OF this inv] show ?thesis .
qed

lemma initial_focus_inv: "initial_focus s \<Longrightarrow> focus_inv s"
  by (auto simp: initial_focus_def focus_inv_def focus_flags_ok_def list_all_length)

lemma run_loop_focus_inv:
  "focus_inv s \<Longrightarrow> run_loop Y s ems = Inr s' \<Longrightarrow> focus_inv s'"
proof (induction ems arbitrary: s)
  case Nil then show ?case by simp
next
  case (Cons em ems)
  obtain E m where em: "em = (E, m)" by (cases em)
  show ?case
  proof (cases "exited s")
    case True with Cons.prems em show ?thesis by simp
  next
    case False
    with Cons.prems(2) em obtain s1 where d: "dispatch Y E m s = Inr s1"
      and r: "run_loop Y s1 ems = Inr s'"
      by (auto simp: bind_e_def split: sum.splits)
    from dispatch_focus[OF Cons.prems(1) d] have "focus_inv s1" by blast
    from Cons.IH[OF this r] show ?thesis .
  qed
qed

text \<open>
  Claim C3. Start with nothing focused and handle any sequence of messages. In every
  state reached, and after any further message, at most one panel widget and at most
  one wallpaper icon is highlighted; and the focus calls a message makes on a surface
  are exactly those of its change of focus: none when the focus stays, else the
  previous one's focus-leave (if there was one) followed by the new one's focus-enter
  (if there is one).
\<close>

theorem focus_invariant:
  assumes init: "initial_focus s0"
      and run: "run_loop Y s0 ems = Inr s"
      and step: "dispatch Y E m s = Inr s'"
  shows "length (filter hilighted (widgets (panel s'))) \<le> 1 \<and>
         length (filter hilighted (icons (wallpaper s'))) \<le> 1 \<and>
         length (filter hilighted (widgets (panel s))) \<le> 1 \<and>
         length (filter hilighted (icons (wallpaper s))) \<le> 1 \<and>
         (\<exists>es. trace s' = trace s @ es \<and>
            filter (is_focus_call Panel) es
              = focus_calls Panel (focused_widget (panel s)) (focused_widget (panel s')) \<and>
            filter (is_focus_call Wallpaper) es
              = focus_calls Wallpaper (focused_icon (wallpaper s)) (focused_icon (wallpaper s')))"
proof -
  from run_loop_focus_inv[OF initial_focus_inv[OF init] run] have inv: "focus_inv s" .
  from dispatch_focus[OF inv step] have inv': "focus_inv s'" and
    calls: "\<exists>es. trace s' = trace s @ es \<and>
            filter (is_focus_call Panel) es
              = focus_calls Panel (focused_widget (panel s)) (focused_widget (panel s')) \<and>
            filter (is_focus_call Wallpaper) es
              = focus_calls Wallpaper (focused_icon (wallpaper s)) (focused_icon (wallpaper s'))"
    by blast+
  from inv inv' have ok:
    "focus_flags_ok (widgets (panel s')) (focused_widget (panel s'))"
    "focus_flags_ok (icons (wallpaper s')) (focused_icon (wallpaper s'))"
    "focus_flags_ok (widgets (panel s)) (focused_widget (panel s))"
    "focus_flags_ok (icons (wallpaper s)) (focused_icon (wallpaper s))"
    by (simp_all add: focus_inv_def)
  from ok[THEN focus_flags_at_most_one] calls show ?thesis by blast
qed

theorem focus_invariant_witness:
  "initial_focus sample_session \<and>
   run_loop sample_yutani sample_session [(sample_env, MSG_WINDOW_MOUSE_EVENT clock_hover)]
     = Inr on_clock_session \<and>
   dispatch sample_yutani sample_env (MSG_WINDOW_MOUSE_EVENT date_hover) on_clock_session
     = Inr on_date_session \<and>
   length (filter hilighted (widgets (panel on_date_session))) = 1 \<and>
   focus_calls Panel (focused_widget (panel on_clock_session))
       (focused_widget (panel on_date_session))
     = [Focus_leave Panel 4, Focus_enter Panel 3] \<and>
   filter (is_focus_call Panel) (drop (length (trace on_clock_session)) (trace on_date_session))
     = [Focus_leave Panel 4, Focus_enter Panel 3]"
proof -
  have init: "initial_focus sample_session"
    by (simp add: initial_focus_def sample_session_def toaru_widgets_def sample_icons_def)
  have run: "run_loop sample_yutani sample_session [(sample_env, MSG_WINDOW_MOUSE_EVENT clock_hover)]
     = Inr on_clock_session"
    by (simp add: on_mouse_event_def PanelWindow_mouse_action_def PanelWindow_draw_def
          sample_session_def sample_env_def clock_hover_def on_clock_session_def
          toaru_widgets_def focus_enter_def focus_leave_def bind_e_def Let_def)
  have step: "dispatch sample_yutani sample_env (MSG_WINDOW_MOUSE_EVENT date_hover) on_clock_session
     = Inr on_date_session"
    by (simp add: on_mouse_event_def PanelWindow_mouse_action_def PanelWindow_draw_def
          sample_session_def sample_env_def date_hover_def on_clock_session_def on_date_session_def
          toaru_widgets_def focus_enter_def focus_leave_def bind_e_def Let_def)
  have count: "length (filter hilighted (widgets (panel on_date_session))) = 1"
    by (simp add: on_date_session_def sample_session_def toaru_widgets_def)
  have fc: "focus_calls Panel (focused_widget (panel on_clock_session))
       (focused_widget (panel on_date_session)) = [Focus_leave Panel 4, Focus_enter Panel 3]"
    by (simp add: focus_calls_def on_clock_session_def on_date_session_def sample_session_def)
  from focus_invariant[OF init run step] fc
  obtain es where es: "trace on_date_session = trace on_clock_session @ es"
    "filter (is_focus_call Panel) es = [Focus_leave Panel 4, Focus_enter Panel 3]"
    by auto
  then have "filter (is_focus_call Panel)
      (drop (length (trace on_clock_session)) (trace on_date_session))
     = [Focus_leave Panel 4, Focus_enter Panel 3]" by simp
  with init run step count fc show ?thesis by blast
qed

section \<open>Window lists on a notification\<close>

lemma update_window_list_takeWhile:
  "\<exists>ad \<in> set ads. ad_size ad = 0 \<Longrightarrow>
   update_window_list ads = Some (takeWhile (\<lambda>ad. ad_size ad \<noteq> 0) ads)"
  by (induction ads) auto

lemma update_window_list_Some:
  "update_window_list ads = Some zs \<Longrightarrow>
   zs = takeWhile (\<lambda>ad. ad_size ad \<noteq> 0) ads \<and> (\<exists>ad \<in> set ads. ad_size ad = 0)"
  by (induction ads arbitrary: zs) (auto split: if_splits)

text \<open>
  Claim C7, as the code has it. On a window-list-changed notification whose answer from
  the server ends (with an advertisement of size \<open>0\<close>), the z-order list becomes the
  advertisements received, in the server's order, and the panel display list becomes
  that list sorted by window id (a stable sort: windows keep the server's order among
  equal ids); neither depends on the lists held before.
\<close>

theorem notify_rebuilds_lists:
  assumes "\<exists>ad \<in> set (adverts E). ad_size ad = 0"
  shows "\<exists>s'. dispatch Y E MSG_NOTIFY s = Inr s' \<and>
           windows_zorder s' = takeWhile (\<lambda>ad. ad_size ad \<noteq> 0) (adverts E) \<and>
           windows s' = sort_key wid (windows_zorder s') \<and>
           sorted (map wid (windows s')) \<and>
           set (windows s') = set (windows_zorder s') \<and>
           length (windows s') = length (windows_zorder s') \<and>
           (\<forall>k. filter (\<lambda>w. wid w = k) (windows s') = filter (\<lambda>w. wid w = k) (windows_zorder s'))"
  using update_window_list_takeWhile[OF assms]
  by (simp add: on_notify_def sort_key_stable)

theorem notify_rebuilds_lists_witness:
  "ad_size (last (adverts sample_env)) = 0 \<and>
   map_sum id windows_zorder (dispatch sample_yutani sample_env MSG_NOTIFY sample_session)
     = Inr sample_windows \<and>
   map_sum id (map wid \<circ> windows) (dispatch sample_yutani sample_env MSG_NOTIFY sample_session)
     = Inr [11, 12]"
proof -
  have h: "\<exists>ad \<in> set (adverts sample_env). ad_size ad = 0"
    by (simp add: sample_env_def)
  have tw: "takeWhile (\<lambda>ad. ad_size ad \<noteq> 0) (adverts sample_env) = sample_windows"
    by (simp add: sample_env_def sample_windows_def)
  from notify_rebuilds_lists[OF h, of sample_yutani sample_session]
  obtain s' where d: "dispatch sample_yutani sample_env MSG_NOTIFY sample_session = Inr s'"
    and z: "windows_zorder s' = sample_windows" and w: "windows s' = sort_key wid (windows_zorder s')"
    unfolding tw by blast
  have "map wid (sort_key wid sample_windows) = [11, 12]" by (simp add: sample_windows_def)
  with d z w show ?thesis by (simp add: sample_env_def)
qed

text \<open>
  The display list is not sorted by name: two windows \<open>alpha\<close> (id 12) and \<open>beta\<close>
  (id 11) are listed as \<open>beta, alpha\<close>.
\<close>

theorem notify_counterexample:
  "map_sum id (map name \<circ> windows) (dispatch sample_yutani sample_env MSG_NOTIFY sample_session)
     = Inr [''beta'', ''alpha''] \<and>
   map name (sort_key name sample_windows) = [''alpha'', ''beta''] \<and>
   \<not> sorted [''beta'', ''alpha'']"
  by (simp add: on_notify_def sample_env_def sample_windows_def)

section \<open>Application runner: routing of key messages\<close>

lemma key_action_effects:
  "key_action Y msg r = Inr (r', es) \<Longrightarrow> \<forall>e \<in> set es. is_runner_effect e"
  by (auto simp: key_action_def Let_def split: if_splits)

lemma no_create_refl: "no_create s s"
  by (simp add: no_create_def)

lemma no_create_trans: "no_create s s1 \<Longrightarrow> no_create s1 s2 \<Longrightarrow> no_create s s2"
  by (auto simp: no_create_def)

lemma bind_runner_open: "app_runner s \<noteq> None \<Longrightarrow> bind_runner Y E msg s = s"
  by (simp add: bind_runner_def)

lemma bind_menu_no_create: "no_create s (bind_menu Y E msg s)"
  by (simp add: bind_menu_def no_create_def)

lemma bind_terminal_no_create: "no_create s (bind_terminal Y msg s)"
  by (simp add: bind_terminal_def no_create_def)

lemma toggle_no_create:
  "toggle_visibility p = (p', es) \<Longrightarrow> Runner_create \<notin> set es"
  by (auto simp: toggle_visibility_def split: if_splits)

lemma bind_toggle_no_create: "no_create s (bind_toggle Y msg s)"
proof (cases "key_ctrl Y msg \<and> keycode msg = F11 Y \<and> key_is_down Y msg")
  case False
  then have "bind_toggle Y msg s = s" unfolding bind_toggle_def by (simp only: if_False)
  then show ?thesis by (simp add: no_create_refl)
next
  case True
  obtain p es where t: "toggle_visibility (panel s) = (p, es)"
    by (cases "toggle_visibility (panel s)")
  from True t have "bind_toggle Y msg s = s\<lparr>panel := p, trace := trace s @ es\<rparr>"
    by (simp add: bind_toggle_def)
  with toggle_no_create[OF t] show ?thesis by (simp add: no_create_def)
qed

lemma alt_tab_no_create: "alt_tab Y E msg s = Inr s' \<Longrightarrow> no_create s s'"
  by (auto simp: alt_tab_def Let_def no_create_def split: if_splits option.splits)

lemma finish_alt_tab_no_create: "finish_alt_tab s = Inr s' \<Longrightarrow> no_create s s'"
  by (auto simp: finish_alt_tab_def bind_e_def no_create_def split: sum.splits option.splits)

lemma bind_release_alt_no_create: "bind_release_alt Y msg s = Inr s' \<Longrightarrow> no_create s s'"
  by (auto simp: bind_release_alt_def split: if_splits
        intro: finish_alt_tab_no_create no_create_refl)

lemma bind_alt_tab_no_create: "bind_alt_tab Y E msg s = Inr s' \<Longrightarrow> no_create s s'"
  by (auto simp: bind_alt_tab_def split: if_splits intro: alt_tab_no_create no_create_refl)

lemma menu_key_no_create: "no_create s (menu_key E msg s)"
  by (simp add: menu_key_def no_create_def)

lemma global_keys_runner_open:
  assumes "app_runner s \<noteq> None" and g: "global_keys Y E msg s = Inr s'"
  shows "no_create s s'"
proof -
  define s4 where "s4 = bind_toggle Y msg (bind_terminal Y msg (bind_menu Y E msg s))"
  have q04: "no_create s s4" unfolding s4_def
    by (rule no_create_trans[OF no_create_trans[OF bind_menu_no_create bind_terminal_no_create]
          bind_toggle_no_create])
  from g obtain s5 s6 where 5: "bind_release_alt Y msg s4 = Inr s5"
    and 6: "bind_alt_tab Y E msg s5 = Inr s6" and 7: "s' = menu_key E msg s6"
    unfolding global_keys_def bind_e_def s4_def bind_runner_open[OF assms(1)]
    by (auto split: sum.splits)
  have "no_create s6 s'" unfolding 7 by (rule menu_key_no_create)
  from no_create_trans[OF no_create_trans[OF no_create_trans[OF q04
        bind_release_alt_no_create[OF 5]] bind_alt_tab_no_create[OF 6]] this]
  show ?thesis .
qed

text \<open>
  Claim C9, as the code has it. While the application runner is open, every key message
  that carries the overlay's window id is handled by the overlay's \<open>key_action\<close> and by
  nothing else: the session changes only in \<open>app_runner\<close> and by the calls \<open>key_action\<close>
  makes (drawing or closing the overlay, launching the typed command), and an exception
  is one of \<open>key_action\<close>. A key message that carries another window id is handled by
  the global key bindings, and these leave the overlay as it is and create no second
  one.
\<close>

theorem runner_modal:
  assumes "app_runner s = Some r"
  shows "(wid msg = wid r \<longrightarrow>
           (case dispatch Y E (MSG_KEY_EVENT msg) s of
              Inl e \<Rightarrow> key_action Y msg r = Inl e
            | Inr s' \<Rightarrow>
                (\<exists>r' es. key_action Y msg r = Inr (r', es) \<and>
                   s' = s\<lparr>app_runner := r', trace := trace s @ es\<rparr> \<and>
                   (\<forall>e \<in> set es. is_runner_effect e)))) \<and>
         (wid msg \<noteq> wid r \<longrightarrow>
           dispatch Y E (MSG_KEY_EVENT msg) s = global_keys Y E msg s \<and>
           (\<forall>s'. dispatch Y E (MSG_KEY_EVENT msg) s = Inr s' \<longrightarrow>
                 app_runner s' = Some r \<and>
                 (\<exists>es. trace s' = trace s @ es \<and> Runner_create \<notin> set es)))"
proof (intro conjI impI allI)
  assume w: "wid msg = wid r"
  show "case dispatch Y E (MSG_KEY_EVENT msg) s of
              Inl e \<Rightarrow> key_action Y msg r = Inl e
            | Inr s' \<Rightarrow>
                (\<exists>r' es. key_action Y msg r = Inr (r', es) \<and>
                   s' = s\<lparr>app_runner := r', trace := trace s @ es\<rparr> \<and>
                   (\<forall>e \<in> set es. is_runner_effect e))"
  proof (cases "key_action Y msg r")
    case (Inl e)
    with assms w show ?thesis by (simp add: on_key_event_def bind_e_def)
  next
    case (Inr res)
    obtain r' es where res: "res = (r', es)" by (cases res)
    from key_action_effects[OF Inr[unfolded res]] Inr res assms w show ?thesis
      by (simp add: on_key_event_def bind_e_def)
  qed
next
  assume w: "wid msg \<noteq> wid r"
  with assms show d: "dispatch Y E (MSG_KEY_EVENT msg) s = global_keys Y E msg s"
    by (simp add: on_key_event_def)
  fix s'
  assume "dispatch Y E (MSG_KEY_EVENT msg) s = Inr s'"
  with d have g: "global_keys Y E msg s = Inr s'" by simp
  from assms have "app_runner s \<noteq> None" by simp
  from global_keys_runner_open[OF this g] assms
  show "app_runner s' = Some r" "\<exists>es. trace s' = trace s @ es \<and> Runner_create \<notin> set es"
    by (simp_all add: no_create_def)
qed

theorem runner_modal_witness:
  "app_runner runner_open_session = Some (ApplicationRunnerWindow 7 [''ls'', ''ln'', ''cat'']) \<and>
   wid (key_down CHR ''l'') = wid (ApplicationRunnerWindow 7 [''ls'', ''ln'', ''cat'']) \<and>
   dispatch sample_yutani sample_env (MSG_KEY_EVENT (key_down CHR ''l'')) runner_open_session
     = Inr (runner_open_session
              \<lparr>app_runner := Some \<lparr>wid = 7, data = ''l'', complete = ''n'', completed = True,
                                   bins = [''ls'', ''ln'', ''cat'']\<rparr>,
               trace := [Runner_draw ''l'' ''n'']\<rparr>)"
proof -
  let ?r = "ApplicationRunnerWindow 7 [''ls'', ''ln'', ''cat'']"
  have h1: "app_runner runner_open_session = Some ?r"
    by (simp add: runner_open_session_def sample_session_def)
  have h2: "wid (key_down CHR ''l'') = wid ?r"
    by (simp add: key_down_def ApplicationRunnerWindow_def)
  have ka: "key_action sample_yutani (key_down CHR ''l'') ?r
     = Inr (Some \<lparr>wid = 7, data = ''l'', complete = ''n'', completed = True,
                  bins = [''ls'', ''ln'', ''cat'']\<rparr>, [Runner_draw ''l'' ''n''])"
    by (simp add: key_action_def key_down_def sample_yutani_def ApplicationRunnerWindow_def
          try_complete_def)
  have tr: "trace runner_open_session = []"
    by (simp add: runner_open_session_def sample_session_def)
  from runner_modal[OF h1, of "key_down CHR ''l''" sample_yutani sample_env, THEN conjunct1,
      THEN mp, OF h2] ka tr
  have "dispatch sample_yutani sample_env (MSG_KEY_EVENT (key_down CHR ''l'')) runner_open_session
     = Inr (runner_open_session
              \<lparr>app_runner := Some \<lparr>wid = 7, data = ''l'', complete = ''n'', completed = True,
                                   bins = [''ls'', ''ln'', ''cat'']\<rparr>,
               trace := [Runner_draw ''l'' ''n'']\<rparr>)"
    by (auto split: sum.splits)
  with h1 h2 show ?thesis by blast
qed

text \<open>
  A key message for another window is not routed to the open overlay: Ctrl+Alt+T
  arriving with window id 12 launches a terminal and leaves the overlay's buffer alone,
  where the overlay's handler would have appended \<open>t\<close>.
\<close>

theorem runner_modal_counterexample:
  "app_runner runner_open_session = Some (ApplicationRunnerWindow 7 [''ls'', ''ln'', ''cat'']) \<and>
   dispatch sample_yutani sample_env (MSG_KEY_EVENT ctrl_alt_t) runner_open_session
     = Inr (runner_open_session\<lparr>trace := [Launch_app ''terminal'' False]\<rparr>) \<and>
   key_action sample_yutani ctrl_alt_t (ApplicationRunnerWindow 7 [''ls'', ''ln'', ''cat''])
     = Inr (Some \<lparr>wid = 7, data = ''t'', complete = [], completed = False,
                  bins = [''ls'', ''ln'', ''cat'']\<rparr>, [Runner_draw ''t'' []])"
  by (simp add: on_key_event_def global_keys_def bind_runner_def bind_menu_def bind_terminal_def
        bind_toggle_def bind_release_alt_def bind_alt_tab_def menu_key_def key_alt_def
        key_ctrl_def key_is_down_def bind_e_def runner_open_session_def sample_session_def
        sample_env_def sample_yutani_def ctrl_alt_t_def ApplicationRunnerWindow_def
        key_action_def try_complete_def)

section \<open>Cross-fade: when the animation entry goes\<close>


























end
